theory Spec2Isabelle
  imports Main "HOL-Library.Multiset"
begin

section \<open>Byte-string functions of the Go library\<close>

text \<open>
  Byte slices and strings are \<open>string\<close> (lists of 8-bit characters). The functions below
  are the ones \<open>handleCurl\<close> calls from the packages \<open>bytes\<close> and \<open>strings\<close>; the separator of
  every \<open>Split\<close> in the source is a single byte.
\<close>

definition HasPrefix :: "string \<Rightarrow> string \<Rightarrow> bool" where
  "HasPrefix s p = (take (length p) s = p)"

fun Contains :: "string \<Rightarrow> string \<Rightarrow> bool" where
  "Contains [] sub = (sub = [])"
| "Contains (c # cs) sub = (HasPrefix (c # cs) sub \<or> Contains cs sub)"

fun Split :: "string \<Rightarrow> char \<Rightarrow> string list" where
  "Split [] sep = [[]]"
| "Split (c # cs) sep =
     (if c = sep then [] # Split cs sep
      else (case Split cs sep of [] \<Rightarrow> [[c]] | w # ws \<Rightarrow> (c # w) # ws))"

text \<open>
  \<open>IndexByte\<close> is the index of the first occurrence of the byte, or \<open>-1\<close>.
\<close>

definition IndexByte :: "string \<Rightarrow> char \<Rightarrow> int" where
  "IndexByte s c = (if c \<in> set s then int (length (takeWhile (\<lambda>x. x \<noteq> c) s)) else - 1)"

text \<open>
  \<open>TrimSpace\<close> removes leading and trailing white space as Unicode defines it. On bytes
  these are the six ASCII characters and the UTF-8 encodings of U+0085, U+00A0, U+1680,
  U+2000 to U+200A, U+2028, U+2029, U+202F, U+205F and U+3000. Every encoding starts with
  a lead byte and continues with continuation bytes only, so decoding the first (last)
  rune yields a white-space rune exactly when the string starts (ends) with one of them.
\<close>

definition spaceRunes :: "string list" where
  "spaceRunes =
     [[CHR 0x09], [CHR 0x0A], [CHR 0x0B], [CHR 0x0C], [CHR 0x0D], [CHR 0x20],
      [CHR 0xC2, CHR 0x85], [CHR 0xC2, CHR 0xA0], [CHR 0xE1, CHR 0x9A, CHR 0x80],
      [CHR 0xE2, CHR 0x80, CHR 0x80], [CHR 0xE2, CHR 0x80, CHR 0x81],
      [CHR 0xE2, CHR 0x80, CHR 0x82], [CHR 0xE2, CHR 0x80, CHR 0x83],
      [CHR 0xE2, CHR 0x80, CHR 0x84], [CHR 0xE2, CHR 0x80, CHR 0x85],
      [CHR 0xE2, CHR 0x80, CHR 0x86], [CHR 0xE2, CHR 0x80, CHR 0x87],
      [CHR 0xE2, CHR 0x80, CHR 0x88], [CHR 0xE2, CHR 0x80, CHR 0x89],
      [CHR 0xE2, CHR 0x80, CHR 0x8A], [CHR 0xE2, CHR 0x80, CHR 0xA8],
      [CHR 0xE2, CHR 0x80, CHR 0xA9], [CHR 0xE2, CHR 0x80, CHR 0xAF],
      [CHR 0xE2, CHR 0x81, CHR 0x9F], [CHR 0xE3, CHR 0x80, CHR 0x80]]"

definition leadingRune :: "string list \<Rightarrow> string \<Rightarrow> nat" where
  "leadingRune runes s =
     (case find (\<lambda>r. r \<noteq> [] \<and> HasPrefix s r) runes of None \<Rightarrow> 0 | Some r \<Rightarrow> length r)"

function dropRunes :: "string list \<Rightarrow> string \<Rightarrow> string" where
  "dropRunes runes s =
     (if leadingRune runes s = 0 then s else dropRunes runes (drop (leadingRune runes s) s))"
  by pat_completeness auto
termination
proof (relation "measure (\<lambda>(runes, s). length s)")
  show "wf (measure (\<lambda>(runes, s). length s))" by simp
next
  fix runes :: "string list" and s :: string
  assume nz: "leadingRune runes s \<noteq> 0"
  then obtain r where r: "find (\<lambda>r. r \<noteq> [] \<and> HasPrefix s r) runes = Some r"
    by (auto simp: leadingRune_def split: option.splits)
  then have "r \<noteq> []" and "HasPrefix s r"
    by (auto simp: find_Some_iff)
  then have "s \<noteq> []"
    by (auto simp: HasPrefix_def)
  with nz show "((runes, drop (leadingRune runes s) s), (runes, s)) \<in> measure (\<lambda>(runes, s). length s)"
    by simp
qed

definition TrimSpace :: "string \<Rightarrow> string" where
  "TrimSpace s = rev (dropRunes (map rev spaceRunes) (rev (dropRunes spaceRunes s)))"

section \<open>Constants of the helper\<close>

text \<open>
  Modelled from the spec: the declarations of \<open>flushPkt\<close>, \<open>endOfReadPkt\<close>,
  \<open>gittufRefPrefix\<close>, \<open>gitUploadPack\<close> and \<open>rsl.Ref\<close> are not among the sources. The spec
  gives the sentinels \<open>0000\<close> (flush-pkt) and \<open>0002\<close> (response-end-pkt), the prefix
  \<open>refs/gittuf/\<close>, the service \<open>git-upload-pack\<close> and the RSL ref
  \<open>refs/gittuf/reference-state-log\<close>.
\<close>

definition flushPkt :: string where
  "flushPkt = ''0000''"

definition endOfReadPkt :: string where
  "endOfReadPkt = ''0002''"

definition gittufRefPrefix :: string where
  "gittufRefPrefix = ''refs/gittuf/''"

definition gitUploadPack :: string where
  "gitUploadPack = ''git-upload-pack''"

definition rslRef :: string where
  "rslRef = ''refs/gittuf/reference-state-log''"

section \<open>Effects and their failures\<close>

text \<open>
  Everything \<open>handleCurl\<close> does to the outside is an event, and the events that succeeded
  form the trace, oldest first. The splitters \<open>splitInput\<close> and \<open>splitOutput\<close> and the
  wrappers of the scanners and pipes are not among the sources: the controller's input is
  the sequence of tokens that \<open>stdInScanner\<close> yields and the child's output the sequence of
  packets that the scanners over \<open>helperStdOut\<close> yield one after the other; \<open>Scan\<close>
  returning false is the end of the list. A token is the value of \<open>Bytes()\<close> at the time of
  the call.
\<close>

datatype event =
    StdoutPipe
  | StdinPipe
  | Start
  | ChildStdin string
  | Stdout string
  | RslRecord string string
  | CloseStdin
  | CloseStdout
  | Wait

datatype error = Failed event | IndexOutOfRange | SliceOutOfRange

text \<open>
  The environment decides which effect fails (\<open>fails env tr e\<close>: the effect \<open>e\<close>, tried
  after the trace \<open>tr\<close>, returns an error) and in which order a \<open>range\<close> over the map visits
  its entries (by increasing \<open>rangeRank\<close>; every order of distinct keys arises from some
  rank). The encoder \<open>packetEncode\<close> is not among the sources and is a parameter.
\<close>

record env =
  packetEncode :: "string \<Rightarrow> string"
  fails :: "event list \<Rightarrow> event \<Rightarrow> bool"
  rangeRank :: "event list \<Rightarrow> string \<Rightarrow> nat"

type_synonym 'a result = "(error \<times> event list) + 'a"

definition perform :: "env \<Rightarrow> event \<Rightarrow> event list \<Rightarrow> event list result" where
  "perform env e tr = (if fails env tr e then Inl (Failed e, tr) else Inr (tr @ [e]))"

text \<open>
  The map \<open>gittufRefsTips\<close> is a list of entries with distinct keys; an assignment replaces
  the value of a present key and adds an absent one.
\<close>

type_synonym refmap = "(string \<times> string) list"

fun mapSet :: "string \<Rightarrow> string \<Rightarrow> refmap \<Rightarrow> refmap" where
  "mapSet k v [] = [(k, v)]"
| "mapSet k v ((k', v') # m) = (if k' = k then (k, v) # m else (k', v') # mapSet k v m)"

definition rangeOrder :: "env \<Rightarrow> event list \<Rightarrow> refmap \<Rightarrow> refmap" where
  "rangeOrder env tr m = sort_key (\<lambda>(k, v). rangeRank env tr k) m"

section \<open>The loops over the child's output\<close>

text \<open>
  Lines 76-86 and 230-240 copy packets to the controller up to and including
  \<open>flushPkt\<close>; lines 345-364 do the same up to \<open>endOfReadPkt\<close>, where all three exits
  leave the loop. The result tells whether the terminator was seen.
\<close>

fun forwardUntil ::
  "env \<Rightarrow> string \<Rightarrow> string list \<Rightarrow> event list \<Rightarrow> (bool \<times> string list \<times> event list) result" where
  "forwardUntil env stop [] tr = Inr (False, [], tr)"
| "forwardUntil env stop (output # rest) tr =
     (case perform env (Stdout output) tr of
        Inl e \<Rightarrow> Inl e
      | Inr tr' \<Rightarrow> if output = stop then Inr (True, rest, tr') else forwardUntil env stop rest tr')"

text \<open>Lines 98-115: the answer to \<open>list for-push\<close>.\<close>

definition recordListedRef :: "string \<Rightarrow> refmap \<Rightarrow> refmap" where
  "recordListedRef output tips =
     (case Split (TrimSpace output) CHR '' '' of
        oid # refname # _ \<Rightarrow>
          if HasPrefix refname gittufRefPrefix then mapSet refname oid tips else tips
      | _ \<Rightarrow> tips)"

fun listForPushDrain ::
  "env \<Rightarrow> string list \<Rightarrow> refmap \<Rightarrow> event list \<Rightarrow> (string list \<times> refmap \<times> event list) result" where
  "listForPushDrain env [] tips tr = Inr ([], tips, tr)"
| "listForPushDrain env (output # rest) tips tr =
     (let tips' = recordListedRef output tips
      in case perform env (Stdout output) tr of
           Inl e \<Rightarrow> Inl e
         | Inr tr' \<Rightarrow>
             if output = flushPkt then Inr (rest, tips', tr')
             else listForPushDrain env rest tips' tr')"

text \<open>Lines 195-217: the push report.\<close>

fun pushReportDrain ::
  "env \<Rightarrow> string list \<Rightarrow> event list \<Rightarrow> (string list \<times> event list) result" where
  "pushReportDrain env [] tr = Inr ([], tr)"
| "pushReportDrain env (output # rest) tr =
     (case (if \<not> Contains output gittufRefPrefix then perform env (Stdout output) tr else Inr tr) of
        Inl e \<Rightarrow> Inl e
      | Inr tr' \<Rightarrow> if output = flushPkt then Inr (rest, tr') else pushReportDrain env rest tr')"

text \<open>
  Lines 286-310: the answer to \<open>ls-refs\<close>. The slice \<open>[4:]\<close> needs four bytes and the index
  \<open>[1]\<close> a second component; both panic otherwise.
\<close>

definition recordAdvertisedRef :: "string \<Rightarrow> refmap \<Rightarrow> error + refmap" where
  "recordAdvertisedRef output tips =
     (if output \<noteq> flushPkt \<and> output \<noteq> endOfReadPkt then
        (if length output < 4 then Inl SliceOutOfRange
         else
           (let refAd = TrimSpace (drop 4 output);
                i = IndexByte refAd CHR 0x00;
                refAd = (if i > 0 then take (nat i) refAd else refAd)
            in case Split refAd CHR '' '' of
                 oid # refname # _ \<Rightarrow>
                   Inr (if HasPrefix refname gittufRefPrefix then mapSet refname oid tips
                        else tips)
               | _ \<Rightarrow> Inl IndexOutOfRange))
      else Inr tips)"

fun lsRefsResponseDrain ::
  "env \<Rightarrow> string list \<Rightarrow> refmap \<Rightarrow> event list \<Rightarrow> (string list \<times> refmap \<times> event list) result" where
  "lsRefsResponseDrain env [] tips tr = Inr ([], tips, tr)"
| "lsRefsResponseDrain env (output # rest) tips tr =
     (case recordAdvertisedRef output tips of
        Inl e \<Rightarrow> Inl (e, tr)
      | Inr tips' \<Rightarrow>
          (case perform env (Stdout output) tr of
             Inl e \<Rightarrow> Inl e
           | Inr tr' \<Rightarrow>
               if output = endOfReadPkt then Inr (rest, tips', tr')
               else lsRefsResponseDrain env rest tips' tr'))"

section \<open>The push batch\<close>

text \<open>
  Lines 146-149: the refspec is the second component of the trimmed command split at
  spaces, the destination the second component of the refspec split at colons. \<open>None\<close>
  is an index out of range.
\<close>

definition parseRefSpec :: "string \<Rightarrow> (string \<times> string) option" where
  "parseRefSpec pushCommand =
     (case Split (TrimSpace pushCommand) CHR '' '' of
        _ # refSpec # _ \<Rightarrow>
          (case Split refSpec CHR '':'' of
             srcRef # dstRef # _ \<Rightarrow> Some (srcRef, dstRef)
           | _ \<Rightarrow> None)
      | _ \<Rightarrow> None)"

text \<open>Lines 145-159: the RSL entry of one push command.\<close>

definition recordPush :: "env \<Rightarrow> refmap \<Rightarrow> string \<Rightarrow> event list \<Rightarrow> event list result" where
  "recordPush env tips pushCommand tr =
     (if tips \<noteq> [] then
        (case parseRefSpec pushCommand of
           None \<Rightarrow> Inl (IndexOutOfRange, tr)
         | Some (srcRef, dstRef) \<Rightarrow>
             if \<not> HasPrefix dstRef gittufRefPrefix then perform env (RslRecord dstRef srcRef) tr
             else Inr tr)
      else Inr tr)"

text \<open>Lines 144-164: the loop over the buffered push commands.\<close>

fun forwardPushCommands ::
  "env \<Rightarrow> refmap \<Rightarrow> string list \<Rightarrow> event list \<Rightarrow> event list result" where
  "forwardPushCommands env tips [] tr = Inr tr"
| "forwardPushCommands env tips (pushCommand # rest) tr =
     (case recordPush env tips pushCommand tr of
        Inl e \<Rightarrow> Inl e
      | Inr tr1 \<Rightarrow>
          (case perform env (ChildStdin pushCommand) tr1 of
             Inl e \<Rightarrow> Inl e
           | Inr tr2 \<Rightarrow> forwardPushCommands env tips rest tr2))"

definition rslPush :: string where
  "rslPush = ''push '' @ rslRef @ '':'' @ rslRef @ [CHR 0x0A]"

text \<open>Lines 144-176: what the blank line at the end of a batch triggers.\<close>

definition endPushBatch ::
  "env \<Rightarrow> refmap \<Rightarrow> string list \<Rightarrow> event list \<Rightarrow> event list result" where
  "endPushBatch env tips cmds tr =
     (case forwardPushCommands env tips cmds tr of
        Inl e \<Rightarrow> Inl e
      | Inr tr1 \<Rightarrow>
          (case (if tips \<noteq> [] then perform env (ChildStdin rslPush) tr1 else Inr tr1) of
             Inl e \<Rightarrow> Inl e
           | Inr tr2 \<Rightarrow> perform env (ChildStdin [CHR 0x0A]) tr2))"

text \<open>
  Lines 121-190: the loop that buffers the batch. It ends at the blank line or when the
  controller's input ends; the buffer \<open>pushCommands\<close> is never emptied.
\<close>

fun pushBatch ::
  "env \<Rightarrow> refmap \<Rightarrow> string \<Rightarrow> string list \<Rightarrow> string list \<Rightarrow> event list
     \<Rightarrow> (string list \<times> string list \<times> event list) result" where
  "pushBatch env tips command [] cmds tr =
     (if command = [CHR 0x0A] then
        (case endPushBatch env tips cmds tr of
           Inl e \<Rightarrow> Inl e
         | Inr tr' \<Rightarrow> Inr ([], cmds, tr'))
      else Inr ([], cmds @ [command], tr))"
| "pushBatch env tips command (next # input) cmds tr =
     (if command = [CHR 0x0A] then
        (case endPushBatch env tips cmds tr of
           Inl e \<Rightarrow> Inl e
         | Inr tr' \<Rightarrow> Inr (next # input, cmds, tr'))
      else pushBatch env tips next input (cmds @ [command]) tr)"

section \<open>The state machine\<close>

text \<open>
  Modelled from the spec: the declaration of the states is not among the sources; the
  spec lists them.
\<close>

datatype fsm =
    start
  | serviceRouter
  | lsRefs
  | lsRefsResponse
  | requestingWants
  | packfileIncoming
  | packfileDone

record state =
  stdin :: "string list"
  childOut :: "string list"
  trace :: "event list"
  gittufRefsTips :: refmap
  pushCommands :: "string list"
  service :: string
  isPush :: bool
  isPacketMode :: bool
  currentState :: fsm

text \<open>Lines 61-86: \<open>stateless-connect\<close>.\<close>

definition statelessConnect :: "env \<Rightarrow> string \<Rightarrow> state \<Rightarrow> state result" where
  "statelessConnect env command s =
     (case Split (TrimSpace command) CHR '' '' of
        _ # svc # _ \<Rightarrow>
          (case perform env (ChildStdin command) (trace s) of
             Inl e \<Rightarrow> Inl e
           | Inr tr \<Rightarrow>
               (case forwardUntil env flushPkt (childOut s) tr of
                  Inl e \<Rightarrow> Inl e
                | Inr (_, out, tr') \<Rightarrow>
                    Inr (s\<lparr>service := svc, currentState := serviceRouter,
                           childOut := out, trace := tr'\<rparr>)))
      | _ \<Rightarrow> Inl (IndexOutOfRange, trace s))"

text \<open>Lines 88-115: \<open>list for-push\<close>.\<close>

definition listForPush :: "env \<Rightarrow> string \<Rightarrow> state \<Rightarrow> state result" where
  "listForPush env command s =
     (case perform env (ChildStdin command) (trace s) of
        Inl e \<Rightarrow> Inl e
      | Inr tr \<Rightarrow>
          (case listForPushDrain env (childOut s) (gittufRefsTips s) tr of
             Inl e \<Rightarrow> Inl e
           | Inr (out, tips, tr') \<Rightarrow>
               Inr (s\<lparr>gittufRefsTips := tips, childOut := out, trace := tr'\<rparr>)))"

text \<open>Lines 117-217: \<open>push\<close>.\<close>

definition push :: "env \<Rightarrow> string \<Rightarrow> state \<Rightarrow> state result" where
  "push env command s =
     (case pushBatch env (gittufRefsTips s) command (stdin s) (pushCommands s) (trace s) of
        Inl e \<Rightarrow> Inl e
      | Inr (input, cmds, tr) \<Rightarrow>
          (case pushReportDrain env (childOut s) tr of
             Inl e \<Rightarrow> Inl e
           | Inr (out, tr') \<Rightarrow>
               Inr (s\<lparr>isPush := True, stdin := input, pushCommands := cmds,
                      childOut := out, trace := tr'\<rparr>)))"

text \<open>Lines 218-240: every other command.\<close>

definition otherHelperCommand :: "env \<Rightarrow> string \<Rightarrow> state \<Rightarrow> state result" where
  "otherHelperCommand env command s =
     (case perform env (ChildStdin command) (trace s) of
        Inl e \<Rightarrow> Inl e
      | Inr tr \<Rightarrow>
          (case forwardUntil env flushPkt (childOut s) tr of
             Inl e \<Rightarrow> Inl e
           | Inr (_, out, tr') \<Rightarrow> Inr (s\<lparr>childOut := out, trace := tr'\<rparr>)))"

text \<open>Lines 57-241: the state \<open>start\<close>.\<close>

definition handleStart :: "env \<Rightarrow> string \<Rightarrow> state \<Rightarrow> state result" where
  "handleStart env command s =
     (if HasPrefix command ''stateless-connect'' then statelessConnect env command s
      else if HasPrefix command ''list for-push'' then listForPush env command s
      else if HasPrefix command ''push'' then push env command s
      else otherHelperCommand env command s)"

text \<open>Lines 243-258: the state \<open>serviceRouter\<close>.\<close>

definition handleServiceRouter :: "env \<Rightarrow> string \<Rightarrow> state \<Rightarrow> state result" where
  "handleServiceRouter env command s =
     (let next =
            (if service s = gitUploadPack then
               (if Contains command ''command=ls-refs'' then lsRefs
                else if Contains command ''command=fetch'' then requestingWants
                else currentState s)
             else currentState s)
      in case perform env (ChildStdin command) (trace s) of
           Inl e \<Rightarrow> Inl e
         | Inr tr \<Rightarrow> Inr (s\<lparr>isPacketMode := True, currentState := next, trace := tr\<rparr>))"

text \<open>Lines 264-313: the state \<open>lsRefs\<close>.\<close>

definition refPrefixCommand :: string where
  "refPrefixCommand = ''ref-prefix '' @ gittufRefPrefix @ [CHR 0x0A]"

definition handleLsRefs :: "env \<Rightarrow> string \<Rightarrow> state \<Rightarrow> state result" where
  "handleLsRefs env command s =
     (case (if command = flushPkt
            then perform env (ChildStdin (packetEncode env refPrefixCommand)) (trace s)
            else Inr (trace s)) of
        Inl e \<Rightarrow> Inl e
      | Inr tr1 \<Rightarrow>
          (case perform env (ChildStdin command) tr1 of
             Inl e \<Rightarrow> Inl e
           | Inr tr2 \<Rightarrow>
               if command = flushPkt then
                 (case lsRefsResponseDrain env (childOut s) (gittufRefsTips s) tr2 of
                    Inl e \<Rightarrow> Inl e
                  | Inr (out, tips, tr3) \<Rightarrow>
                      Inr (s\<lparr>currentState := serviceRouter, gittufRefsTips := tips,
                             childOut := out, trace := tr3\<rparr>))
               else Inr (s\<lparr>trace := tr2\<rparr>)))"

text \<open>
  Lines 315-368: the state \<open>requestingWants\<close>. The local \<open>wantsDone\<close> is false whenever it
  is read, so a flush always injects. After the flush the state is \<open>packfileIncoming\<close> and
  the response is copied; at \<open>endOfReadPkt\<close> the next token of the controller, when there
  is one and it is not empty, is handled in the state \<open>requestingWants\<close> again without
  being scanned anew (the \<open>goto\<close>).
\<close>

definition wantCommand :: "string \<Rightarrow> string" where
  "wantCommand tip = ''want '' @ tip @ [CHR 0x0A]"

fun writeWants :: "env \<Rightarrow> string list \<Rightarrow> event list \<Rightarrow> event list result" where
  "writeWants env [] tr = Inr tr"
| "writeWants env (tip # tips) tr =
     (case perform env (ChildStdin (packetEncode env (wantCommand tip))) tr of
        Inl e \<Rightarrow> Inl e
      | Inr tr' \<Rightarrow> writeWants env tips tr')"

function handleRequestingWants :: "env \<Rightarrow> string \<Rightarrow> state \<Rightarrow> state result" where
  "handleRequestingWants env command s =
     (case (if command = flushPkt
            then writeWants env (map snd (rangeOrder env (trace s) (gittufRefsTips s))) (trace s)
            else Inr (trace s)) of
        Inl e \<Rightarrow> Inl e
      | Inr tr1 \<Rightarrow>
          (case perform env (ChildStdin command) tr1 of
             Inl e \<Rightarrow> Inl e
           | Inr tr2 \<Rightarrow>
               if command = flushPkt then
                 (case forwardUntil env endOfReadPkt (childOut s) tr2 of
                    Inl e \<Rightarrow> Inl e
                  | Inr (sawEnd, out, tr3) \<Rightarrow>
                      if sawEnd then
                        (case stdin s of
                           [] \<Rightarrow>
                             Inr (s\<lparr>currentState := packfileDone, childOut := out, trace := tr3\<rparr>)
                         | next # input \<Rightarrow>
                             if next = [] then
                               Inr (s\<lparr>currentState := packfileDone, stdin := input,
                                      childOut := out, trace := tr3\<rparr>)
                             else
                               handleRequestingWants env next
                                 (s\<lparr>currentState := requestingWants, stdin := input,
                                    childOut := out, trace := tr3\<rparr>))
                      else Inr (s\<lparr>currentState := packfileDone, childOut := out, trace := tr3\<rparr>))
               else Inr (s\<lparr>trace := tr2\<rparr>)))"
  by pat_completeness auto
termination
  by (relation "measure (\<lambda>(env, command, s). length (stdin s))") auto

text \<open>Lines 56-369: the switch on the current state.\<close>

definition dispatch :: "env \<Rightarrow> string \<Rightarrow> state \<Rightarrow> state result" where
  "dispatch env command s =
     (case currentState s of
        start \<Rightarrow> handleStart env command s
      | serviceRouter \<Rightarrow> handleServiceRouter env command s
      | lsRefs \<Rightarrow> handleLsRefs env command s
      | requestingWants \<Rightarrow> handleRequestingWants env command s
      | _ \<Rightarrow> Inr s)"

section \<open>The main loop\<close>

text \<open>
  No handler gives tokens back to the controller's input, so the loop of lines 51-373,
  which scans one token per round, ends.
\<close>

lemma pushBatch_stdin:
  "pushBatch env tips command input cmds tr = Inr (input', cmds', tr') \<Longrightarrow> length input' \<le> length input"
proof (induction input arbitrary: command cmds)
  case Nil
  then show ?case by (auto split: if_splits sum.splits)
next
  case (Cons a input)
  show ?case
  proof (cases "command = [CHR 0x0A]")
    case True
    with Cons.prems show ?thesis by (auto split: sum.splits)
  next
    case False
    with Cons.prems have "pushBatch env tips a input (cmds @ [command]) tr = Inr (input', cmds', tr')"
      by simp
    from Cons.IH[OF this] show ?thesis by simp
  qed
qed

lemma handleStart_stdin:
  "handleStart env command s = Inr s' \<Longrightarrow> length (stdin s') \<le> length (stdin s)"
  by (auto simp: handleStart_def statelessConnect_def listForPush_def push_def otherHelperCommand_def
      split: if_splits sum.splits list.splits dest!: pushBatch_stdin)

lemma handleRequestingWants_stdin:
  "handleRequestingWants env command s = Inr s' \<Longrightarrow> length (stdin s') \<le> length (stdin s)"
proof (induction env command s arbitrary: s' rule: handleRequestingWants.induct)
  case (1 env command s)
  show ?case
  proof (cases "command = flushPkt")
    case False
    with "1.prems" show ?thesis
      by (subst (asm) handleRequestingWants.simps) (auto split: sum.splits)
  next
    case True
    from "1.prems" True obtain tr1 tr2 sawEnd out tr3 where
      w: "(if command = flushPkt
            then writeWants env (map snd (rangeOrder env (trace s) (gittufRefsTips s))) (trace s)
            else Inr (trace s)) = Inr tr1"
      and p: "perform env (ChildStdin command) tr1 = Inr tr2"
      and f: "forwardUntil env endOfReadPkt (childOut s) tr2 = Inr (sawEnd, out, tr3)"
      by (subst (asm) handleRequestingWants.simps) (auto split: sum.splits)
    show ?thesis
    proof (cases "sawEnd \<and> (\<exists>next input. stdin s = next # input \<and> next \<noteq> [])")
      case False
      with "1.prems" True w p f show ?thesis
        by (subst (asm) handleRequestingWants.simps) (auto split: sum.splits list.splits if_splits)
    next
      case True
      then obtain "next" input where n: "sawEnd" "stdin s = next # input" "next \<noteq> []" by blast
      let ?s2 = "s\<lparr>currentState := requestingWants, stdin := input, childOut := out, trace := tr3\<rparr>"
      from "1.prems" \<open>command = flushPkt\<close> w p f n
      have "handleRequestingWants env next ?s2 = Inr s'"
        by (subst (asm) handleRequestingWants.simps) simp
      from "1.IH"[OF w p \<open>command = flushPkt\<close> f refl refl n(1) n(2) n(3) this]
      show ?thesis using n by simp
    qed
  qed
qed

lemma dispatch_stdin:
  "dispatch env command s = Inr s' \<Longrightarrow> length (stdin s') \<le> length (stdin s)"
proof (cases "currentState s")
  case start
  then show "dispatch env command s = Inr s' \<Longrightarrow> ?thesis"
    by (simp add: dispatch_def handleStart_stdin)
next
  case serviceRouter
  then show "dispatch env command s = Inr s' \<Longrightarrow> ?thesis"
    by (auto simp: dispatch_def handleServiceRouter_def Let_def split: sum.splits)
next
  case lsRefs
  then show "dispatch env command s = Inr s' \<Longrightarrow> ?thesis"
    by (auto simp: dispatch_def handleLsRefs_def split: sum.splits if_splits)
next
  case requestingWants
  then show "dispatch env command s = Inr s' \<Longrightarrow> ?thesis"
    by (simp add: dispatch_def handleRequestingWants_stdin)
qed (auto simp: dispatch_def)

function mainLoop :: "env \<Rightarrow> state \<Rightarrow> state result" where
  "mainLoop env s =
     (case stdin s of
        [] \<Rightarrow> Inr s
      | command # input \<Rightarrow>
          (case dispatch env command (s\<lparr>stdin := input\<rparr>) of
             Inl e \<Rightarrow> Inl e
           | Inr s' \<Rightarrow> if currentState s' = packfileDone then Inr s' else mainLoop env s'))"
  by pat_completeness auto
termination
proof (relation "measure (\<lambda>(env, s). length (stdin s))")
  show "wf (measure (\<lambda>(env, s). length (stdin s)))" by simp
next
  fix env :: env and s s' :: state and command :: string and input :: "string list"
  assume "stdin s = command # input" and "dispatch env command (s\<lparr>stdin := input\<rparr>) = Inr s'"
  then show "((env, s'), (env, s)) \<in> measure (\<lambda>(env, s). length (stdin s))"
    using dispatch_stdin[of env command "s\<lparr>stdin := input\<rparr>" s'] by simp
qed

section \<open>The helper as a whole\<close>

text \<open>
  Lines 17-50 start the child and set the variables; text mode is the initial mode of
  the input splitter. Lines 375-387 close the pipes, wait for the child and return the
  map and the flag. The result is the returned error or pair, with the trace.
\<close>

definition initialState :: "string list \<Rightarrow> string list \<Rightarrow> event list \<Rightarrow> state" where
  "initialState input out tr =
     \<lparr>stdin = input, childOut = out, trace = tr, gittufRefsTips = [], pushCommands = [],
      service = [], isPush = False, isPacketMode = False, currentState = start\<rparr>"

definition spawn :: "env \<Rightarrow> event list result" where
  "spawn env =
     (case perform env StdoutPipe [] of
        Inl e \<Rightarrow> Inl e
      | Inr tr1 \<Rightarrow>
          (case perform env StdinPipe tr1 of
             Inl e \<Rightarrow> Inl e
           | Inr tr2 \<Rightarrow> perform env Start tr2))"

definition translate :: "env \<Rightarrow> string list \<Rightarrow> string list \<Rightarrow> state result" where
  "translate env input out =
     (case spawn env of
        Inl e \<Rightarrow> Inl e
      | Inr tr \<Rightarrow> mainLoop env (initialState input out tr))"

definition shutdown :: "env \<Rightarrow> state \<Rightarrow> (refmap \<times> bool \<times> event list) result" where
  "shutdown env s =
     (case perform env CloseStdin (trace s) of
        Inl e \<Rightarrow> Inl e
      | Inr tr1 \<Rightarrow>
          (case perform env CloseStdout tr1 of
             Inl e \<Rightarrow> Inl e
           | Inr tr2 \<Rightarrow>
               (case perform env Wait tr2 of
                  Inl e \<Rightarrow> Inl e
                | Inr tr3 \<Rightarrow> Inr (gittufRefsTips s, isPush s, tr3))))"

definition handleCurl ::
  "env \<Rightarrow> string list \<Rightarrow> string list \<Rightarrow> (refmap \<times> bool \<times> event list) result" where
  "handleCurl env input out =
     (case translate env input out of
        Inl e \<Rightarrow> Inl e
      | Inr s \<Rightarrow> shutdown env s)"

section \<open>Concrete environments and auxiliary notions\<close>

text \<open>
  Modelled from the spec: \<open>packetEncode\<close> is not among the sources. The spec's encoder
  prepends the length of the payload plus four as four lower-case hexadecimal digits;
  \<open>specEncode\<close> is that encoder on payloads of at most 0xFFFB bytes and serves the
  concrete runs below. \<open>quietEnv\<close> is the environment in which nothing fails.
\<close>

definition hexDigit :: "nat \<Rightarrow> char" where
  "hexDigit n = ''0123456789abcdef'' ! (n mod 16)"

definition specEncode :: "string \<Rightarrow> string" where
  "specEncode p =
     (let n = length p + 4
      in [hexDigit (n div 4096), hexDigit (n div 256), hexDigit (n div 16), hexDigit n] @ p)"

definition quietEnv :: env where
  "quietEnv = \<lparr>packetEncode = specEncode, fails = (\<lambda>tr e. False), rangeRank = (\<lambda>tr k. 0)\<rparr>"

text \<open>
  The packets of a sequence up to and including the first occurrence of a terminator,
  and the packets after it.
\<close>

definition throughFirst :: "string \<Rightarrow> string list \<Rightarrow> string list" where
  "throughFirst stop out =
     takeWhile (\<lambda>p. p \<noteq> stop) out @ take 1 (dropWhile (\<lambda>p. p \<noteq> stop) out)"

definition afterFirst :: "string \<Rightarrow> string list \<Rightarrow> string list" where
  "afterFirst stop out = drop 1 (dropWhile (\<lambda>p. p \<noteq> stop) out)"

text \<open>What a trace wrote to the child's standard input, in order.\<close>

fun childWrite :: "event \<Rightarrow> string list" where
  "childWrite (ChildStdin b) = [b]"
| "childWrite e = []"

definition childWrites :: "event list \<Rightarrow> string list" where
  "childWrites tr = concat (map childWrite tr)"

text \<open>A state of the top-level menu with a child that answers a command.\<close>

definition capabilitiesState :: state where
  "capabilitiesState = initialState [] [''fetch\<newline>'', ''push\<newline>'', ''0000'', ''0009late\<newline>''] [Start]"

text \<open>A state in which the arguments of \<open>ls-refs\<close> are awaited, and the state the loop reaches from it.\<close>

definition lsRefsState :: state where
  "lsRefsState =
     (initialState [''0001'', ''000bpeel\<newline>'', ''0000'']
        [''0032deadbeef refs/gittuf/reference-state-log\<newline>'', ''0000'', ''0002''] [Start])
     \<lparr>service := gitUploadPack, currentState := lsRefs\<rparr>"

definition lsRefsFinal :: state where
  "lsRefsFinal =
     \<lparr>stdin = [], childOut = [],
      trace = [Start, ChildStdin ''0001'', ChildStdin ''000bpeel\<newline>'',
               ChildStdin ''001cref-prefix refs/gittuf/\<newline>'', ChildStdin ''0000'',
               Stdout ''0032deadbeef refs/gittuf/reference-state-log\<newline>'',
               Stdout ''0000'', Stdout ''0002''],
      gittufRefsTips = [(''refs/gittuf/reference-state-log'', ''deadbeef'')],
      pushCommands = [], service = ''git-upload-pack'', isPush = False, isPacketMode = False,
      currentState = serviceRouter\<rparr>"

text \<open>A state in which the wants of a fetch are awaited, with a follow-up batch, and the state the loop reaches from it.\<close>

definition wantsState :: state where
  "wantsState =
     (initialState [''000dwant cafebabe\<newline>'', ''0000'', ''000dwant 0badcafe\<newline>'', ''0000'']
        [''0008PACK'', ''0002'', ''0008MORE'', ''0002''] [Start])
     \<lparr>gittufRefsTips := [(''refs/gittuf/reference-state-log'', ''deadbeef''),
                          (''refs/gittuf/policy'', ''f00dfeed'')],
       service := gitUploadPack, isPacketMode := True, currentState := requestingWants\<rparr>"

definition wantsFinal :: state where
  "wantsFinal =
     \<lparr>stdin = [], childOut = [],
      trace = [Start, ChildStdin ''000dwant cafebabe\<newline>'',
               ChildStdin ''0012want deadbeef\<newline>'', ChildStdin ''0012want f00dfeed\<newline>'',
               ChildStdin ''0000'', Stdout ''0008PACK'', Stdout ''0002'',
               ChildStdin ''000dwant 0badcafe\<newline>'',
               ChildStdin ''0012want deadbeef\<newline>'', ChildStdin ''0012want f00dfeed\<newline>'',
               ChildStdin ''0000'', Stdout ''0008MORE'', Stdout ''0002''],
      gittufRefsTips = [(''refs/gittuf/reference-state-log'', ''deadbeef''),
                        (''refs/gittuf/policy'', ''f00dfeed'')],
      pushCommands = [], service = ''git-upload-pack'', isPush = False, isPacketMode = True,
      currentState = packfileDone\<rparr>"

text \<open>
  The events of one buffered push command: the run of \<open>gittuf rsl record\<close>, when the remote
  is gittuf-enabled and the destination is not a gittuf ref, directly followed by the
  write of the command to the child.
\<close>

definition recordEvents :: "refmap \<Rightarrow> string \<Rightarrow> event list" where
  "recordEvents tips pushCommand =
     (case parseRefSpec pushCommand of
        Some (srcRef, dstRef) \<Rightarrow>
          if tips \<noteq> [] \<and> \<not> HasPrefix dstRef gittufRefPrefix then [RslRecord dstRef srcRef] else []
      | None \<Rightarrow> [])"

definition pushEvents :: "refmap \<Rightarrow> string \<Rightarrow> event list" where
  "pushEvents tips pushCommand = recordEvents tips pushCommand @ [ChildStdin pushCommand]"

text \<open>
  A gittuf-enabled remote, three push commands, and an environment in which
  \<open>gittuf rsl record\<close> fails for the second of them.
\<close>

definition rejectEnv :: env where
  "rejectEnv = quietEnv\<lparr>fails := (\<lambda>tr e. e = RslRecord ''refs/heads/dev'' ''refs/heads/dev'')\<rparr>"

definition threePushes :: "string list" where
  "threePushes =
     [''push refs/heads/main:refs/heads/main\<newline>'', ''push refs/heads/dev:refs/heads/dev\<newline>'',
      ''push refs/tags/v1:refs/tags/v1\<newline>'']"

definition rslTip :: refmap where
  "rslTip = [(''refs/gittuf/reference-state-log'', ''abc'')]"

text \<open>
  A push command has a refspec with a colon when its trimmed text has a second
  space-separated component and that component contains a colon.
\<close>

definition hasColonRefSpec :: "string \<Rightarrow> bool" where
  "hasColonRefSpec pushCommand =
     (let parts = Split (TrimSpace pushCommand) CHR '' ''
      in 2 \<le> length parts \<and> CHR '':'' \<in> set (parts ! 1))"

definition noColonPushes :: "string list" where
  "noColonPushes = [''push refs/heads/main:refs/heads/main\<newline>'', ''push refs/heads/dev\<newline>'']"

text \<open>
  Every key of the map starts with \<open>refs/gittuf/\<close>; a map keeps the keys of another.
\<close>

definition gittufKeys :: "refmap \<Rightarrow> bool" where
  "gittufKeys tips = list_all (\<lambda>(ref, oid). HasPrefix ref gittufRefPrefix) tips"

definition keysKept :: "refmap \<Rightarrow> refmap \<Rightarrow> bool" where
  "keysKept tips tips' = (fst ` set tips \<subseteq> fst ` set tips')"

text \<open>A session that lists the refs of a remote, and the child's answers.\<close>

definition lsRefsSession :: "string list" where
  "lsRefsSession =
     [''stateless-connect git-upload-pack\<newline>'', ''0014command=ls-refs\<newline>'', ''0001'', ''0000'']"

definition lsRefsAnswer :: "string list" where
  "lsRefsAnswer =
     [''000eversion 2\<newline>'', ''0000'', ''0020cafebabe refs/heads/main\<newline>'',
      ''0032deadbeef refs/gittuf/reference-state-log\<newline>'',
      ''0025f00dfeed refs/gittuf/policy\<newline>'', ''0000'', ''0002'']"

text \<open>
  An environment in which the child exits with a failure, a push session on a
  gittuf-enabled remote with the child's answers, the state in which the translation of
  the listing session ends, and an answer to \<open>ls-refs\<close> that holds a delim-pkt.
\<close>

definition waitEnv :: env where
  "waitEnv = quietEnv\<lparr>fails := (\<lambda>tr e. e = Wait)\<rparr>"

definition pushSession :: "string list" where
  "pushSession = ''list for-push\<newline>'' # threePushes @ [''\<newline>'']"

definition pushAnswer :: "string list" where
  "pushAnswer = [''abc refs/gittuf/reference-state-log\<newline>'', ''0000'',
                 ''000eok refs/heads/main\<newline>'', ''0000'']"

definition lsRefsDone :: state where
  "lsRefsDone =
     \<lparr>stdin = [], childOut = [],
      trace = [StdoutPipe, StdinPipe, Start, ChildStdin ''stateless-connect git-upload-pack\<newline>'',
               Stdout ''000eversion 2\<newline>'', Stdout ''0000'',
               ChildStdin ''0014command=ls-refs\<newline>'', ChildStdin ''0001'',
               ChildStdin ''001cref-prefix refs/gittuf/\<newline>'', ChildStdin ''0000'',
               Stdout ''0020cafebabe refs/heads/main\<newline>'',
               Stdout ''0032deadbeef refs/gittuf/reference-state-log\<newline>'',
               Stdout ''0025f00dfeed refs/gittuf/policy\<newline>'', Stdout ''0000'', Stdout ''0002''],
      gittufRefsTips = [(''refs/gittuf/reference-state-log'', ''deadbeef''),
                        (''refs/gittuf/policy'', ''f00dfeed'')],
      pushCommands = [], service = ''git-upload-pack'', isPush = False, isPacketMode = True,
      currentState = serviceRouter\<rparr>"

definition delimAnswer :: "string list" where
  "delimAnswer =
     [''000eversion 2\<newline>'', ''0000'', ''0032deadbeef refs/gittuf/reference-state-log\<newline>'',
      ''0001'', ''0000'', ''0002'']"

text \<open>The position of a key in a list of keys; the rank that yields a given order.\<close>

definition position :: "string list \<Rightarrow> string \<Rightarrow> nat" where
  "position ks k = length (takeWhile (\<lambda>x. x \<noteq> k) ks)"






section \<open>Auxiliary lemmas\<close>

declare mainLoop.simps [simp del]

declare handleRequestingWants.simps [simp del]

declare dropRunes.simps [simp del]

lemma throughFirst_simps:
  "throughFirst stop [] = []"
  "throughFirst stop (p # out) = (if p = stop then [p] else p # throughFirst stop out)"
  by (simp_all add: throughFirst_def)

lemma afterFirst_simps:
  "afterFirst stop [] = []"
  "afterFirst stop (p # out) = (if p = stop then out else afterFirst stop out)"
  by (simp_all add: afterFirst_def)

lemma flushPkt_not_gittuf: "\<not> Contains flushPkt gittufRefPrefix"
  by (simp add: flushPkt_def gittufRefPrefix_def HasPrefix_def)

lemma childWrites_simps:
  "childWrites [] = []"
  "childWrites (tr @ tr2) = childWrites tr @ childWrites tr2"
  "childWrites (e # tr) = childWrite e @ childWrites tr"
  "childWrites (map ChildStdin bs) = bs"
  "childWrites (map Stdout bs) = []"
  by (induction bs) (simp_all add: childWrites_def)

lemma perform_Inr: "perform env e tr = Inr tr' \<longleftrightarrow> \<not> fails env tr e \<and> tr' = tr @ [e]"
  by (auto simp: perform_def)

lemma forwardUntil_Inr:
  "forwardUntil env stop out tr = Inr (saw, rest, tr') \<Longrightarrow>
     tr' = tr @ map Stdout (throughFirst stop out) \<and> rest = afterFirst stop out \<and> saw = (stop \<in> set out)"
proof (induction out arbitrary: tr)
  case Nil
  then show ?case by (simp add: throughFirst_simps afterFirst_simps)
next
  case (Cons p out)
  from Cons.prems have w: "\<not> fails env tr (Stdout p)"
    by (auto simp: perform_def split: if_splits)
  show ?case
  proof (cases "p = stop")
    case True
    with w Cons.prems show ?thesis
      by (auto simp: perform_def throughFirst_simps afterFirst_simps)
  next
    case False
    with w Cons.prems have "forwardUntil env stop out (tr @ [Stdout p]) = Inr (saw, rest, tr')"
      by (simp add: perform_def)
    from Cons.IH[OF this] False show ?thesis
      by (auto simp: throughFirst_simps afterFirst_simps)
  qed
qed

lemma lsRefsResponseDrain_Inr:
  "lsRefsResponseDrain env out tips tr = Inr (rest, tips', tr') \<Longrightarrow>
     tr' = tr @ map Stdout (throughFirst endOfReadPkt out) \<and> rest = afterFirst endOfReadPkt out"
proof (induction out arbitrary: tips tr)
  case Nil
  then show ?case by (simp add: throughFirst_simps afterFirst_simps)
next
  case (Cons p out)
  from Cons.prems obtain tips1 where
    r: "recordAdvertisedRef p tips = Inr tips1"
    by (auto split: sum.splits)
  from Cons.prems r have w: "\<not> fails env tr (Stdout p)"
    by (auto simp: perform_def split: if_splits)
  show ?case
  proof (cases "p = endOfReadPkt")
    case True
    with r w Cons.prems show ?thesis
      by (auto simp: perform_def throughFirst_simps afterFirst_simps)
  next
    case False
    with r w Cons.prems have "lsRefsResponseDrain env out tips1 (tr @ [Stdout p]) = Inr (rest, tips', tr')"
      by (simp add: perform_def)
    from Cons.IH[OF this] False show ?thesis
      by (auto simp: throughFirst_simps afterFirst_simps)
  qed
qed

lemma mainLoop_Cons:
  "stdin s = command # input \<Longrightarrow>
   mainLoop env s =
     (case dispatch env command (s\<lparr>stdin := input\<rparr>) of
        Inl e \<Rightarrow> Inl e
      | Inr s' \<Rightarrow> if currentState s' = packfileDone then Inr s' else mainLoop env s')"
  by (subst mainLoop.simps) simp

lemma handleLsRefs_other:
  assumes "command \<noteq> flushPkt" and "handleLsRefs env command s = Inr s'"
  shows "s' = s\<lparr>trace := trace s @ [ChildStdin command]\<rparr>"
  using assms by (auto simp: handleLsRefs_def perform_Inr split: sum.splits)

lemma handleLsRefs_flush:
  assumes "handleLsRefs env flushPkt s = Inr s'"
  shows "\<exists>tips. s' = s\<lparr>currentState := serviceRouter, gittufRefsTips := tips,
            childOut := afterFirst endOfReadPkt (childOut s),
            trace := trace s @ [ChildStdin (packetEncode env refPrefixCommand), ChildStdin flushPkt]
                     @ map Stdout (throughFirst endOfReadPkt (childOut s))\<rparr>"
proof -
  from assms obtain tr1 tr2 out tips tr3 where
    p1: "perform env (ChildStdin (packetEncode env refPrefixCommand)) (trace s) = Inr tr1"
    and p2: "perform env (ChildStdin flushPkt) tr1 = Inr tr2"
    and d: "lsRefsResponseDrain env (childOut s) (gittufRefsTips s) tr2 = Inr (out, tips, tr3)"
    and s': "s' = s\<lparr>currentState := serviceRouter, gittufRefsTips := tips, childOut := out, trace := tr3\<rparr>"
    by (auto simp: handleLsRefs_def split: sum.splits)
  from p1 p2 have "tr2 = trace s @ [ChildStdin (packetEncode env refPrefixCommand), ChildStdin flushPkt]"
    by (simp add: perform_Inr)
  with lsRefsResponseDrain_Inr[OF d] s' show ?thesis by auto
qed

lemma lsRefs_arguments:
  assumes "currentState s = lsRefs" and "stdin s = args @ rest" and "flushPkt \<notin> set args"
    and "mainLoop env s = Inr final"
  shows "mainLoop env (s\<lparr>stdin := rest, trace := trace s @ map ChildStdin args\<rparr>) = Inr final"
  using assms
proof (induction args arbitrary: s)
  case Nil
  from Nil.prems(2) have "s\<lparr>stdin := rest, trace := trace s @ map ChildStdin []\<rparr> = s"
    by (cases s) simp
  with Nil.prems(4) show ?case by simp
next
  case (Cons a args)
  let ?s0 = "s\<lparr>stdin := args @ rest\<rparr>"
  from Cons.prems have st: "stdin s = a # (args @ rest)" and nf: "a \<noteq> flushPkt" by auto
  from Cons.prems(4) obtain s1 where d: "dispatch env a ?s0 = Inr s1"
    by (subst (asm) mainLoop_Cons[OF st]) (auto split: sum.splits)
  with Cons.prems(1) have "handleLsRefs env a ?s0 = Inr s1"
    by (simp add: dispatch_def)
  from handleLsRefs_other[OF nf this] have s1: "s1 = s\<lparr>stdin := args @ rest, trace := trace s @ [ChildStdin a]\<rparr>"
    by simp
  with Cons.prems(1) have c1: "currentState s1 = lsRefs" by simp
  from Cons.prems(4) d c1 have m1: "mainLoop env s1 = Inr final"
    by (subst (asm) mainLoop_Cons[OF st]) simp
  from s1 have "stdin s1 = args @ rest" by simp
  from Cons.IH[OF c1 this _ m1] Cons.prems(3) s1 show ?case by simp
qed

lemma writeWants_Inr:
  "writeWants env tips tr = Inr tr' \<Longrightarrow>
     tr' = tr @ map (\<lambda>tip. ChildStdin (packetEncode env (wantCommand tip))) tips"
proof (induction tips arbitrary: tr)
  case Nil
  then show ?case by simp
next
  case (Cons tip tips)
  from Cons.prems have w: "\<not> fails env tr (ChildStdin (packetEncode env (wantCommand tip)))"
    by (auto simp: perform_def split: if_splits)
  with Cons.prems have
    "writeWants env tips (tr @ [ChildStdin (packetEncode env (wantCommand tip))]) = Inr tr'"
    by (simp add: perform_def)
  from Cons.IH[OF this] show ?case by simp
qed

lemma handleRequestingWants_other:
  assumes "command \<noteq> flushPkt" and "handleRequestingWants env command s = Inr s'"
  shows "s' = s\<lparr>trace := trace s @ [ChildStdin command]\<rparr>"
  using assms
  by (subst (asm) handleRequestingWants.simps) (auto simp: perform_Inr split: sum.splits)

lemma requestingWants_arguments:
  assumes "currentState s = requestingWants" and "stdin s = args @ rest" and "flushPkt \<notin> set args"
    and "mainLoop env s = Inr final"
  shows "mainLoop env (s\<lparr>stdin := rest, trace := trace s @ map ChildStdin args\<rparr>) = Inr final"
  using assms
proof (induction args arbitrary: s)
  case Nil
  from Nil.prems(2) have "s\<lparr>stdin := rest, trace := trace s @ map ChildStdin []\<rparr> = s"
    by (cases s) simp
  with Nil.prems(4) show ?case by simp
next
  case (Cons a args)
  let ?s0 = "s\<lparr>stdin := args @ rest\<rparr>"
  from Cons.prems have st: "stdin s = a # (args @ rest)" and nf: "a \<noteq> flushPkt" by auto
  from Cons.prems(4) obtain s1 where d: "dispatch env a ?s0 = Inr s1"
    by (subst (asm) mainLoop_Cons[OF st]) (auto split: sum.splits)
  with Cons.prems(1) have "handleRequestingWants env a ?s0 = Inr s1"
    by (simp add: dispatch_def)
  from handleRequestingWants_other[OF nf this]
  have s1: "s1 = s\<lparr>stdin := args @ rest, trace := trace s @ [ChildStdin a]\<rparr>"
    by simp
  with Cons.prems(1) have c1: "currentState s1 = requestingWants" by simp
  from Cons.prems(4) d c1 have m1: "mainLoop env s1 = Inr final"
    by (subst (asm) mainLoop_Cons[OF st]) simp
  from s1 have "stdin s1 = args @ rest" by simp
  from Cons.IH[OF c1 this _ m1] Cons.prems(3) s1 show ?case by simp
qed

lemma handleRequestingWants_flush:
  assumes "handleRequestingWants env flushPkt s = Inr s'"
  shows "\<exists>wants. mset wants
            = image_mset (\<lambda>(ref, oid). packetEncode env (wantCommand oid)) (mset (gittufRefsTips s))
     \<and> (let out = afterFirst endOfReadPkt (childOut s);
             tr = trace s @ map ChildStdin (wants @ [flushPkt])
                    @ map Stdout (throughFirst endOfReadPkt (childOut s))
         in if endOfReadPkt \<in> set (childOut s) \<and> stdin s \<noteq> [] \<and> hd (stdin s) \<noteq> []
            then handleRequestingWants env (hd (stdin s))
                   (s\<lparr>currentState := requestingWants, stdin := tl (stdin s),
                      childOut := out, trace := tr\<rparr>) = Inr s'
            else s' = s\<lparr>currentState := packfileDone,
                         stdin := (if endOfReadPkt \<in> set (childOut s) then drop 1 (stdin s)
                                   else stdin s),
                         childOut := out, trace := tr\<rparr>)"
proof -
  let ?tips = "map snd (rangeOrder env (trace s) (gittufRefsTips s))"
  let ?wants = "map (\<lambda>tip. packetEncode env (wantCommand tip)) ?tips"
  from assms obtain tr1 tr2 saw out tr3 where
    w: "writeWants env ?tips (trace s) = Inr tr1"
    and p: "perform env (ChildStdin flushPkt) tr1 = Inr tr2"
    and f: "forwardUntil env endOfReadPkt (childOut s) tr2 = Inr (saw, out, tr3)"
    by (subst (asm) handleRequestingWants.simps) (auto split: sum.splits)
  from writeWants_Inr[OF w] have tr1: "tr1 = trace s @ map ChildStdin ?wants"
    by (simp add: comp_def)
  from p have tr2: "tr2 = tr1 @ [ChildStdin flushPkt]" by (simp add: perform_Inr)
  from forwardUntil_Inr[OF f] tr1 tr2 have
    tr3: "tr3 = trace s @ map ChildStdin (?wants @ [flushPkt])
                  @ map Stdout (throughFirst endOfReadPkt (childOut s))"
    and out: "out = afterFirst endOfReadPkt (childOut s)"
    and saw: "saw = (endOfReadPkt \<in> set (childOut s))"
    by simp_all
  have ms: "mset ?wants
      = image_mset (\<lambda>(ref, oid). packetEncode env (wantCommand oid)) (mset (gittufRefsTips s))"
  proof -
    have "mset ?wants = image_mset (\<lambda>e. packetEncode env (wantCommand (snd e)))
                          (mset (rangeOrder env (trace s) (gittufRefsTips s)))"
      by (simp add: multiset.map_comp comp_def)
    also have "mset (rangeOrder env (trace s) (gittufRefsTips s)) = mset (gittufRefsTips s)"
      by (simp add: rangeOrder_def)
    also have "(\<lambda>e. packetEncode env (wantCommand (snd e)))
                 = (\<lambda>(ref, oid). packetEncode env (wantCommand oid))"
      by (simp add: fun_eq_iff)
    finally show ?thesis .
  qed
  have body: "let out = afterFirst endOfReadPkt (childOut s);
             tr = trace s @ map ChildStdin (?wants @ [flushPkt])
                    @ map Stdout (throughFirst endOfReadPkt (childOut s))
         in if endOfReadPkt \<in> set (childOut s) \<and> stdin s \<noteq> [] \<and> hd (stdin s) \<noteq> []
            then handleRequestingWants env (hd (stdin s))
                   (s\<lparr>currentState := requestingWants, stdin := tl (stdin s),
                      childOut := out, trace := tr\<rparr>) = Inr s'
            else s' = s\<lparr>currentState := packfileDone,
                         stdin := (if endOfReadPkt \<in> set (childOut s) then drop 1 (stdin s)
                                   else stdin s),
                         childOut := out, trace := tr\<rparr>"
  proof (cases "stdin s")
    case Nil
    with assms w p f tr3 out saw show ?thesis
      by (subst (asm) handleRequestingWants.simps) (cases s, auto simp: Let_def)
  next
    case (Cons n input)
    with assms w p f tr3 out saw show ?thesis
      by (subst (asm) handleRequestingWants.simps) (cases s, auto simp: Let_def)
  qed
  from ms body show ?thesis by blast
qed

lemma childWrites_recordEvents: "childWrites (recordEvents tips c) = []"
  by (auto simp: recordEvents_def childWrites_def split: option.splits)

lemma childWrites_pushEvents: "childWrites (concat (map (pushEvents tips) cmds)) = cmds"
  by (induction cmds) (simp_all add: childWrites_simps pushEvents_def childWrites_recordEvents)

lemma recordPush_Inr:
  "recordPush env tips c tr = Inr tr' \<Longrightarrow> tr' = tr @ recordEvents tips c"
  by (auto simp: recordPush_def recordEvents_def perform_Inr split: if_splits option.splits)

lemma recordPush_Inl:
  assumes "recordPush env tips c tr = Inl (e, tr')"
  shows "tr' = tr \<and> tips \<noteq> [] \<and>
         (e = IndexOutOfRange \<and> parseRefSpec c = None
          \<or> (\<exists>src dst. e = Failed (RslRecord dst src) \<and> recordEvents tips c = [RslRecord dst src]
                \<and> fails env tr (RslRecord dst src)))"
  using assms
  by (auto simp: recordPush_def recordEvents_def perform_def split: if_splits option.splits)

lemma forwardPushCommands_Inr:
  "forwardPushCommands env tips cmds tr = Inr tr' \<Longrightarrow>
     tr' = tr @ concat (map (pushEvents tips) cmds)"
proof (induction cmds arbitrary: tr)
  case Nil
  then show ?case by simp
next
  case (Cons c cmds)
  from Cons.prems obtain tr1 tr2 where
    r: "recordPush env tips c tr = Inr tr1"
    and p: "perform env (ChildStdin c) tr1 = Inr tr2"
    and f: "forwardPushCommands env tips cmds tr2 = Inr tr'"
    by (auto split: sum.splits)
  from recordPush_Inr[OF r] p have "tr2 = tr @ pushEvents tips c"
    by (simp add: perform_Inr pushEvents_def)
  with Cons.IH[OF f] show ?case by simp
qed

lemma forwardPushCommands_Inl:
  "forwardPushCommands env tips cmds tr = Inl (e, tr') \<Longrightarrow>
     \<exists>k<length cmds.
        forwardPushCommands env tips (take k cmds) tr
          = Inr (tr @ concat (map (pushEvents tips) (take k cmds)))
        \<and> (recordPush env tips (cmds ! k) (tr @ concat (map (pushEvents tips) (take k cmds)))
              = Inl (e, tr')
            \<or> tr' = tr @ concat (map (pushEvents tips) (take k cmds)) @ recordEvents tips (cmds ! k)
               \<and> e = Failed (ChildStdin (cmds ! k)) \<and> fails env tr' (ChildStdin (cmds ! k)))"
proof (induction cmds arbitrary: tr)
  case Nil
  then show ?case by simp
next
  case (Cons c cmds)
  show ?case
  proof (cases "recordPush env tips c tr")
    case (Inl x)
    with Cons.prems have "recordPush env tips c tr = Inl (e, tr')" by simp
    then show ?thesis by (intro exI[of _ 0]) simp
  next
    case (Inr tr1)
    then have tr1: "tr1 = tr @ recordEvents tips c" by (rule recordPush_Inr)
    show ?thesis
    proof (cases "fails env tr1 (ChildStdin c)")
      case True
      with Inr Cons.prems tr1 show ?thesis
        by (intro exI[of _ 0]) (simp add: perform_def)
    next
      case False
      let ?tr2 = "tr @ pushEvents tips c"
      from False Inr Cons.prems tr1 have f: "forwardPushCommands env tips cmds ?tr2 = Inl (e, tr')"
        by (simp add: perform_def pushEvents_def)
      from Cons.IH[OF f] obtain k where k: "k < length cmds"
        and pre: "forwardPushCommands env tips (take k cmds) ?tr2
                    = Inr (?tr2 @ concat (map (pushEvents tips) (take k cmds)))"
        and alt: "recordPush env tips (cmds ! k) (?tr2 @ concat (map (pushEvents tips) (take k cmds)))
              = Inl (e, tr')
            \<or> tr' = ?tr2 @ concat (map (pushEvents tips) (take k cmds)) @ recordEvents tips (cmds ! k)
               \<and> e = Failed (ChildStdin (cmds ! k)) \<and> fails env tr' (ChildStdin (cmds ! k))"
        by blast
      from False Inr tr1 pre
      have "forwardPushCommands env tips (take (Suc k) (c # cmds)) tr
          = Inr (tr @ concat (map (pushEvents tips) (take (Suc k) (c # cmds))))"
        by (simp add: perform_def pushEvents_def)
      with k alt show ?thesis
        by (intro exI[of _ "Suc k"]) simp
    qed
  qed
qed

lemma forwardPushCommands_append:
  "forwardPushCommands env tips (xs @ ys) tr =
     (case forwardPushCommands env tips xs tr of
        Inl e \<Rightarrow> Inl e
      | Inr tr' \<Rightarrow> forwardPushCommands env tips ys tr')"
  by (induction xs arbitrary: tr) (auto split: sum.splits)

lemma pushEvents_not_enabled: "concat (map (pushEvents []) cmds) = map ChildStdin cmds"
  by (induction cmds) (simp_all add: pushEvents_def recordEvents_def split: option.splits)

lemma endPushBatch_Inr:
  assumes "endPushBatch env tips cmds tr = Inr tr'"
  shows "tr' = tr @ concat (map (pushEvents tips) cmds)
              @ (if tips \<noteq> [] then [ChildStdin rslPush] else []) @ [ChildStdin [CHR 0x0A]]"
proof -
  from assms obtain tr1 tr2 where
    f: "forwardPushCommands env tips cmds tr = Inr tr1"
    and r: "(if tips \<noteq> [] then perform env (ChildStdin rslPush) tr1 else Inr tr1) = Inr tr2"
    and n: "perform env (ChildStdin [CHR 0x0A]) tr2 = Inr tr'"
    by (auto simp: endPushBatch_def split: sum.splits)
  from r have "tr2 = tr1 @ (if tips \<noteq> [] then [ChildStdin rslPush] else [])"
    by (auto simp: perform_Inr split: if_splits)
  with forwardPushCommands_Inr[OF f] n show ?thesis
    by (simp add: perform_Inr)
qed

lemma pushBatch_Inr:
  assumes "pushBatch env tips command input cmds tr = Inr (input', cmds', tr')"
    and "[CHR 0x0A] \<in> set (command # input)"
  shows "cmds' = cmds @ takeWhile (\<lambda>c. c \<noteq> [CHR 0x0A]) (command # input)
         \<and> input' = afterFirst [CHR 0x0A] (command # input)
         \<and> endPushBatch env tips cmds' tr = Inr tr'"
  using assms
proof (induction input arbitrary: command cmds)
  case Nil
  then show ?case by (auto simp: afterFirst_simps split: sum.splits)
next
  case (Cons n input)
  show ?case
  proof (cases "command = [CHR 0x0A]")
    case True
    with Cons.prems show ?thesis by (auto simp: afterFirst_simps split: sum.splits)
  next
    case False
    with Cons.prems have p: "pushBatch env tips n input (cmds @ [command]) tr = Inr (input', cmds', tr')"
      and m: "[CHR 0x0A] \<in> set (n # input)"
      by auto
    from Cons.IH[OF p m] False show ?thesis by (auto simp: afterFirst_simps)
  qed
qed

lemma Split_not_Nil: "Split s sep \<noteq> []"
  by (induction s) (auto split: list.splits)

lemma Split_length: "2 \<le> length (Split s sep) \<longleftrightarrow> sep \<in> set s"
proof (induction s)
  case Nil
  then show ?case by simp
next
  case (Cons c s)
  obtain w ws where "Split s sep = w # ws"
    using Split_not_Nil[of s sep] by (cases "Split s sep") auto
  with Cons show ?case by auto
qed

lemma parseRefSpec_None: "parseRefSpec c = None \<longleftrightarrow> \<not> hasColonRefSpec c"
proof (cases "Split (TrimSpace c) CHR '' ''")
  case Nil
  then show ?thesis using Split_not_Nil by blast
next
  case (Cons a parts)
  show ?thesis
  proof (cases parts)
    case Nil
    with Cons show ?thesis by (simp add: parseRefSpec_def hasColonRefSpec_def)
  next
    case (Cons refSpec more)
    obtain w ws where w: "Split refSpec CHR '':'' = w # ws"
      using Split_not_Nil[of refSpec "CHR '':''"] by (cases "Split refSpec CHR '':''") auto
    have "ws \<noteq> [] \<longleftrightarrow> CHR '':'' \<in> set refSpec"
      using Split_length[of refSpec "CHR '':''"] w by (cases ws) auto
    with \<open>Split (TrimSpace c) CHR '' '' = a # parts\<close> Cons w show ?thesis
      by (cases ws) (simp_all add: parseRefSpec_def hasColonRefSpec_def)
  qed
qed

lemma keys_mapSet: "fst ` set (mapSet k v m) = insert k (fst ` set m)"
proof (induction m)
  case Nil
  then show ?case by simp
next
  case (Cons e m)
  obtain k' v' where e: "e = (k', v')" by (cases e)
  with Cons show ?case by (cases "k' = k") auto
qed

lemma distinct_mapSet: "distinct (map fst m) \<Longrightarrow> distinct (map fst (mapSet k v m))"
proof (induction m)
  case Nil
  then show ?case by simp
next
  case (Cons e m)
  obtain k' v' where e: "e = (k', v')" by (cases e)
  from Cons e have "k' \<notin> fst ` set m" and "distinct (map fst (mapSet k v m))" by simp_all
  with Cons.prems e show ?case
    by (cases "k' = k") (simp_all add: keys_mapSet)
qed

lemma gittufKeys_mapSet:
  "gittufKeys m \<Longrightarrow> HasPrefix k gittufRefPrefix \<Longrightarrow> gittufKeys (mapSet k v m)"
  by (induction m) (auto simp: gittufKeys_def)

lemma keysKept_refl: "keysKept m m"
  by (simp add: keysKept_def)

lemma keysKept_trans: "keysKept a b \<Longrightarrow> keysKept b c \<Longrightarrow> keysKept a c"
  by (auto simp: keysKept_def)

lemma keysKept_mapSet: "keysKept m (mapSet k v m)"
  unfolding keysKept_def keys_mapSet by blast

lemma recordListedRef_keys:
  "gittufKeys tips \<Longrightarrow>
     gittufKeys (recordListedRef output tips) \<and> keysKept tips (recordListedRef output tips)"
  by (auto simp: recordListedRef_def gittufKeys_mapSet keysKept_refl keysKept_mapSet
      split: list.splits)

lemma recordAdvertisedRef_keys:
  "gittufKeys tips \<Longrightarrow> recordAdvertisedRef output tips = Inr tips' \<Longrightarrow>
     gittufKeys tips' \<and> keysKept tips tips'"
  by (auto simp: recordAdvertisedRef_def Let_def gittufKeys_mapSet keysKept_refl keysKept_mapSet
      split: if_splits list.splits)

lemma listForPushDrain_keys:
  "gittufKeys tips \<Longrightarrow> listForPushDrain env out tips tr = Inr (rest, tips', tr') \<Longrightarrow>
     gittufKeys tips' \<and> keysKept tips tips'"
proof (induction out arbitrary: tips tr)
  case Nil
  then show ?case by (simp add: keysKept_refl)
next
  case (Cons p out)
  from recordListedRef_keys[OF Cons.prems(1), of p] have
    g: "gittufKeys (recordListedRef p tips)" and k: "keysKept tips (recordListedRef p tips)"
    by simp_all
  show ?case
  proof (cases "p = flushPkt")
    case True
    with Cons.prems(2) g k show ?thesis
      by (auto simp: Let_def split: sum.splits)
  next
    case False
    with Cons.prems(2) obtain tr1 where
      "listForPushDrain env out (recordListedRef p tips) tr1 = Inr (rest, tips', tr')"
      by (auto simp: Let_def split: sum.splits)
    from Cons.IH[OF g this] k show ?thesis
      by (auto intro: keysKept_trans)
  qed
qed

lemma lsRefsResponseDrain_keys:
  "gittufKeys tips \<Longrightarrow> lsRefsResponseDrain env out tips tr = Inr (rest, tips', tr') \<Longrightarrow>
     gittufKeys tips' \<and> keysKept tips tips'"
proof (induction out arbitrary: tips tr)
  case Nil
  then show ?case by (simp add: keysKept_refl)
next
  case (Cons p out)
  from Cons.prems(2) obtain tips1 where r: "recordAdvertisedRef p tips = Inr tips1"
    by (auto split: sum.splits)
  from recordAdvertisedRef_keys[OF Cons.prems(1) r] have
    g: "gittufKeys tips1" and k: "keysKept tips tips1"
    by simp_all
  show ?case
  proof (cases "p = endOfReadPkt")
    case True
    with Cons.prems(2) r g k show ?thesis
      by (auto split: sum.splits)
  next
    case False
    with Cons.prems(2) r obtain tr1 where
      "lsRefsResponseDrain env out tips1 tr1 = Inr (rest, tips', tr')"
      by (auto split: sum.splits)
    from Cons.IH[OF g this] k show ?thesis
      by (auto intro: keysKept_trans)
  qed
qed

lemma handleRequestingWants_tips:
  "handleRequestingWants env command s = Inr s' \<Longrightarrow> gittufRefsTips s' = gittufRefsTips s"
proof (induction env command s arbitrary: s' rule: handleRequestingWants.induct)
  case (1 env command s)
  show ?case
  proof (cases "command = flushPkt")
    case False
    from handleRequestingWants_other[OF False "1.prems"] show ?thesis by simp
  next
    case True
    from "1.prems" True obtain tr1 tr2 sawEnd out tr3 where
      w: "(if command = flushPkt
            then writeWants env (map snd (rangeOrder env (trace s) (gittufRefsTips s))) (trace s)
            else Inr (trace s)) = Inr tr1"
      and p: "perform env (ChildStdin command) tr1 = Inr tr2"
      and f: "forwardUntil env endOfReadPkt (childOut s) tr2 = Inr (sawEnd, out, tr3)"
      by (subst (asm) handleRequestingWants.simps) (auto split: sum.splits)
    show ?thesis
    proof (cases "sawEnd \<and> (\<exists>next input. stdin s = next # input \<and> next \<noteq> [])")
      case False
      with "1.prems" True w p f show ?thesis
        by (subst (asm) handleRequestingWants.simps) (auto split: sum.splits list.splits if_splits)
    next
      case True
      then obtain "next" input where n: "sawEnd" "stdin s = next # input" "next \<noteq> []" by blast
      let ?s2 = "s\<lparr>currentState := requestingWants, stdin := input, childOut := out, trace := tr3\<rparr>"
      from "1.prems" \<open>command = flushPkt\<close> w p f n
      have "handleRequestingWants env next ?s2 = Inr s'"
        by (subst (asm) handleRequestingWants.simps) simp
      from "1.IH"[OF w p \<open>command = flushPkt\<close> f refl refl n(1) n(2) n(3) this]
      show ?thesis by simp
    qed
  qed
qed

lemma dispatch_keys:
  assumes "gittufKeys (gittufRefsTips s)" and "dispatch env command s = Inr s'"
  shows "gittufKeys (gittufRefsTips s') \<and> keysKept (gittufRefsTips s) (gittufRefsTips s')"
proof (cases "currentState s")
  case start
  with assms(2) have h: "handleStart env command s = Inr s'" by (simp add: dispatch_def)
  show ?thesis
  proof (cases "\<not> HasPrefix command ''stateless-connect'' \<and> HasPrefix command ''list for-push''")
    case True
    with h obtain tr out tips tr' where
      d: "listForPushDrain env (childOut s) (gittufRefsTips s) tr = Inr (out, tips, tr')"
      and s': "s' = s\<lparr>gittufRefsTips := tips, childOut := out, trace := tr'\<rparr>"
      by (auto simp: handleStart_def listForPush_def split: sum.splits)
    from listForPushDrain_keys[OF assms(1) d] s' show ?thesis by simp
  next
    case False
    with h have "gittufRefsTips s' = gittufRefsTips s"
      by (auto simp: handleStart_def statelessConnect_def push_def otherHelperCommand_def
          split: if_splits sum.splits list.splits)
    with assms(1) show ?thesis by (simp add: keysKept_refl)
  qed
next
  case serviceRouter
  with assms(2) have "gittufRefsTips s' = gittufRefsTips s"
    by (auto simp: dispatch_def handleServiceRouter_def Let_def split: sum.splits)
  with assms(1) show ?thesis by (simp add: keysKept_refl)
next
  case lsRefs
  with assms(2) have h: "handleLsRefs env command s = Inr s'" by (simp add: dispatch_def)
  show ?thesis
  proof (cases "command = flushPkt")
    case True
    with h obtain tr2 out tips tr3 where
      d: "lsRefsResponseDrain env (childOut s) (gittufRefsTips s) tr2 = Inr (out, tips, tr3)"
      and s': "s' = s\<lparr>currentState := serviceRouter, gittufRefsTips := tips, childOut := out, trace := tr3\<rparr>"
      by (auto simp: handleLsRefs_def split: sum.splits)
    from lsRefsResponseDrain_keys[OF assms(1) d] s' show ?thesis by simp
  next
    case False
    from handleLsRefs_other[OF False h] assms(1) show ?thesis by (simp add: keysKept_refl)
  qed
next
  case requestingWants
  with assms(2) have "handleRequestingWants env command s = Inr s'" by (simp add: dispatch_def)
  from handleRequestingWants_tips[OF this] assms(1) show ?thesis by (simp add: keysKept_refl)
qed (use assms in \<open>auto simp: dispatch_def keysKept_refl\<close>)

lemma mainLoop_keys:
  "gittufKeys (gittufRefsTips s) \<Longrightarrow> mainLoop env s = Inr s' \<Longrightarrow>
     gittufKeys (gittufRefsTips s') \<and> keysKept (gittufRefsTips s) (gittufRefsTips s')"
proof (induction env s arbitrary: s' rule: mainLoop.induct)
  case (1 env s)
  show ?case
  proof (cases "stdin s")
    case Nil
    with "1.prems" show ?thesis
      by (subst (asm) mainLoop.simps) (simp add: keysKept_refl)
  next
    case (Cons command input)
    from "1.prems"(2) obtain s1 where d: "dispatch env command (s\<lparr>stdin := input\<rparr>) = Inr s1"
      and fin: "if currentState s1 = packfileDone then s' = s1 else mainLoop env s1 = Inr s'"
      by (subst (asm) mainLoop_Cons[OF Cons]) (auto split: sum.splits if_splits)
    from "1.prems"(1) have "gittufKeys (gittufRefsTips (s\<lparr>stdin := input\<rparr>))" by simp
    from dispatch_keys[OF this d] have g1: "gittufKeys (gittufRefsTips s1)"
      and k1: "keysKept (gittufRefsTips s) (gittufRefsTips s1)"
      by simp_all
    show ?thesis
    proof (cases "currentState s1 = packfileDone")
      case True
      with fin g1 k1 show ?thesis by simp
    next
      case False
      with fin have m: "mainLoop env s1 = Inr s'" by simp
      from "1.IH"[OF Cons d False g1 m] k1 show ?thesis
        by (auto intro: keysKept_trans)
    qed
  qed
qed

text \<open>
  The list that stands for the map keeps its keys distinct throughout, and every order
  of its entries is the order of a \<open>range\<close> under some rank.
\<close>

lemma position_entries:
  "distinct (map fst m) \<Longrightarrow> map (\<lambda>(k, v). position (map fst m) k) m = [0..<length m]"
proof (induction m)
  case Nil
  then show ?case by simp
next
  case (Cons e m)
  obtain k v where e: "e = (k, v)" by (cases e)
  from Cons.prems e have nk: "k \<notin> fst ` set m" and d: "distinct (map fst m)" by simp_all
  have "map (\<lambda>(k', v'). position (map fst (e # m)) k') m
          = map (\<lambda>(k', v'). Suc (position (map fst m) k')) m"
    using nk e by (auto simp: position_def rev_image_eqI)
  also have "\<dots> = map Suc (map (\<lambda>(k', v'). position (map fst m) k') m)"
    by (simp add: comp_def case_prod_unfold)
  also have "\<dots> = map Suc [0..<length m]"
    using Cons.IH[OF d] by simp
  finally show ?case using e by (simp add: position_def map_Suc_upt upt_conv_Cons del: upt_Suc)
qed

lemma filter_single:
  "distinct xs \<Longrightarrow> x \<in> set xs \<Longrightarrow> inj_on f (set xs) \<Longrightarrow> filter (\<lambda>y. f x = f y) xs = [x]"
proof (induction xs)
  case Nil
  then show ?case by simp
next
  case (Cons a xs)
  show ?case
  proof (cases "x = a")
    case True
    with Cons.prems have "\<forall>y \<in> set xs. f x \<noteq> f y"
      by (auto simp: inj_on_def)
    then have "filter (\<lambda>y. f x = f y) xs = []" by (simp add: filter_empty_conv)
    with True show ?thesis by simp
  next
    case False
    with Cons.prems have "x \<in> set xs" and "distinct xs" and "inj_on f (set xs)" and "f x \<noteq> f a"
      by (auto simp: inj_on_def)
    with Cons.IH show ?thesis by simp
  qed
qed

lemma every_order_has_a_rank:
  assumes "distinct (map fst m)" and "mset m' = mset m"
  shows "rangeOrder (env\<lparr>rangeRank := (\<lambda>tr. position (map fst m'))\<rparr>) tr m = m'"
proof -
  let ?f = "\<lambda>(k, v). position (map fst m') k"
  from assms(2) have "mset (map fst m') = mset (map fst m)" by simp
  from mset_eq_imp_distinct_iff[OF this] assms(1) have dk: "distinct (map fst m')" by simp
  from position_entries[OF dk] have pos: "map ?f m' = [0..<length m']" .
  then have srt: "sorted (map ?f m')" by simp
  from pos have "distinct (map ?f m')" by simp
  then have d': "distinct m'" and inj: "inj_on ?f (set m')"
    by (simp_all add: distinct_map)
  from mset_eq_imp_distinct_iff[OF assms(2)] d' have d: "distinct m" by simp
  from assms(2) have st: "set m = set m'" by (metis mset_eq_setD)
  have "sort_key ?f m = m'"
  proof (rule properties_for_sort_key[OF assms(2) _ srt])
    fix e
    assume e: "e \<in> set m'"
    from filter_single[OF d' e inj] have "filter (\<lambda>x. ?f e = ?f x) m' = [e]" .
    moreover from e st inj have "filter (\<lambda>x. ?f e = ?f x) m = [e]"
      by (intro filter_single[OF d]) simp_all
    ultimately show "filter (\<lambda>x. ?f e = ?f x) m' = filter (\<lambda>x. ?f e = ?f x) m" by simp
  qed
  then show ?thesis by (simp add: rangeOrder_def)
qed


lemma recordListedRef_distinct:
  "distinct (map fst tips) \<Longrightarrow> distinct (map fst (recordListedRef output tips))"
  by (auto simp: recordListedRef_def distinct_mapSet split: list.splits)

lemma recordAdvertisedRef_distinct:
  "distinct (map fst tips) \<Longrightarrow> recordAdvertisedRef output tips = Inr tips' \<Longrightarrow>
     distinct (map fst tips')"
  by (auto simp: recordAdvertisedRef_def Let_def distinct_mapSet split: if_splits list.splits)

lemma listForPushDrain_distinct:
  "distinct (map fst tips) \<Longrightarrow> listForPushDrain env out tips tr = Inr (rest, tips', tr') \<Longrightarrow>
     distinct (map fst tips')"
proof (induction out arbitrary: tips tr)
  case Nil
  then show ?case by simp
next
  case (Cons p out)
  from recordListedRef_distinct[OF Cons.prems(1), of p]
  have g: "distinct (map fst (recordListedRef p tips))" .
  show ?case
  proof (cases "p = flushPkt")
    case True
    with Cons.prems(2) g show ?thesis
      by (auto simp: Let_def split: sum.splits)
  next
    case False
    with Cons.prems(2) obtain tr1 where
      "listForPushDrain env out (recordListedRef p tips) tr1 = Inr (rest, tips', tr')"
      by (auto simp: Let_def split: sum.splits)
    from Cons.IH[OF g this] show ?thesis .
  qed
qed

lemma lsRefsResponseDrain_distinct:
  "distinct (map fst tips) \<Longrightarrow> lsRefsResponseDrain env out tips tr = Inr (rest, tips', tr') \<Longrightarrow>
     distinct (map fst tips')"
proof (induction out arbitrary: tips tr)
  case Nil
  then show ?case by simp
next
  case (Cons p out)
  from Cons.prems(2) obtain tips1 where r: "recordAdvertisedRef p tips = Inr tips1"
    by (auto split: sum.splits)
  from recordAdvertisedRef_distinct[OF Cons.prems(1) r] have g: "distinct (map fst tips1)" .
  show ?case
  proof (cases "p = endOfReadPkt")
    case True
    with Cons.prems(2) r g show ?thesis
      by (auto split: sum.splits)
  next
    case False
    with Cons.prems(2) r obtain tr1 where
      "lsRefsResponseDrain env out tips1 tr1 = Inr (rest, tips', tr')"
      by (auto split: sum.splits)
    from Cons.IH[OF g this] show ?thesis .
  qed
qed

lemma dispatch_distinct:
  assumes "distinct (map fst (gittufRefsTips s))" and "dispatch env command s = Inr s'"
  shows "distinct (map fst (gittufRefsTips s'))"
proof (cases "currentState s")
  case start
  with assms(2) have h: "handleStart env command s = Inr s'" by (simp add: dispatch_def)
  show ?thesis
  proof (cases "\<not> HasPrefix command ''stateless-connect'' \<and> HasPrefix command ''list for-push''")
    case True
    with h obtain tr out tips tr' where
      d: "listForPushDrain env (childOut s) (gittufRefsTips s) tr = Inr (out, tips, tr')"
      and s': "s' = s\<lparr>gittufRefsTips := tips, childOut := out, trace := tr'\<rparr>"
      by (auto simp: handleStart_def listForPush_def split: sum.splits)
    from listForPushDrain_distinct[OF assms(1) d] s' show ?thesis by simp
  next
    case False
    with h have "gittufRefsTips s' = gittufRefsTips s"
      by (auto simp: handleStart_def statelessConnect_def push_def otherHelperCommand_def
          split: if_splits sum.splits list.splits)
    with assms(1) show ?thesis by simp
  qed
next
  case serviceRouter
  with assms(2) have "gittufRefsTips s' = gittufRefsTips s"
    by (auto simp: dispatch_def handleServiceRouter_def Let_def split: sum.splits)
  with assms(1) show ?thesis by simp
next
  case lsRefs
  with assms(2) have h: "handleLsRefs env command s = Inr s'" by (simp add: dispatch_def)
  show ?thesis
  proof (cases "command = flushPkt")
    case True
    with h obtain tr2 out tips tr3 where
      d: "lsRefsResponseDrain env (childOut s) (gittufRefsTips s) tr2 = Inr (out, tips, tr3)"
      and s': "s' = s\<lparr>currentState := serviceRouter, gittufRefsTips := tips, childOut := out, trace := tr3\<rparr>"
      by (auto simp: handleLsRefs_def split: sum.splits)
    from lsRefsResponseDrain_distinct[OF assms(1) d] s' show ?thesis by simp
  next
    case False
    from handleLsRefs_other[OF False h] assms(1) show ?thesis by simp
  qed
next
  case requestingWants
  with assms(2) have "handleRequestingWants env command s = Inr s'" by (simp add: dispatch_def)
  from handleRequestingWants_tips[OF this] assms(1) show ?thesis by simp
qed (use assms in \<open>auto simp: dispatch_def\<close>)

lemma mainLoop_distinct:
  "distinct (map fst (gittufRefsTips s)) \<Longrightarrow> mainLoop env s = Inr s' \<Longrightarrow>
     distinct (map fst (gittufRefsTips s'))"
proof (induction env s arbitrary: s' rule: mainLoop.induct)
  case (1 env s)
  show ?case
  proof (cases "stdin s")
    case Nil
    with "1.prems" show ?thesis
      by (subst (asm) mainLoop.simps) simp
  next
    case (Cons command input)
    from "1.prems"(2) obtain s1 where d: "dispatch env command (s\<lparr>stdin := input\<rparr>) = Inr s1"
      and fin: "if currentState s1 = packfileDone then s' = s1 else mainLoop env s1 = Inr s'"
      by (subst (asm) mainLoop_Cons[OF Cons]) (auto split: sum.splits if_splits)
    from "1.prems"(1) have "distinct (map fst (gittufRefsTips (s\<lparr>stdin := input\<rparr>)))" by simp
    from dispatch_distinct[OF this d] have g1: "distinct (map fst (gittufRefsTips s1))" .
    show ?thesis
    proof (cases "currentState s1 = packfileDone")
      case True
      with fin g1 show ?thesis by simp
    next
      case False
      with fin have m: "mainLoop env s1 = Inr s'" by simp
      from "1.IH"[OF Cons d False g1 m] show ?thesis .
    qed
  qed
qed

lemma translate_distinct:
  "translate env input out = Inr s \<Longrightarrow> distinct (map fst (gittufRefsTips s))"
proof -
  assume "translate env input out = Inr s"
  then obtain tr0 where m: "mainLoop env (initialState input out tr0) = Inr s"
    by (auto simp: translate_def split: sum.splits)
  have "distinct (map fst (gittufRefsTips (initialState input out tr0)))"
    by (simp add: initialState_def)
  from mainLoop_distinct[OF this m] show ?thesis .
qed

text \<open>
  The scenarios of the specification, run through the whole helper: a plain push to a
  remote without gittuf refs, a push to a gittuf-enabled remote with its report, and a
  listing of refs followed by a fetch.
\<close>

lemma scenario_plain_push:
  "handleCurl quietEnv [''list for-push\<newline>'', ''push refs/heads/main:refs/heads/main\<newline>'', ''\<newline>'']
     [''cafebabe refs/heads/main\<newline>'', ''0000'', ''000eok refs/heads/main\<newline>'', ''0000'']
   = Inr ([], True,
          [StdoutPipe, StdinPipe, Start, ChildStdin ''list for-push\<newline>'',
           Stdout ''cafebabe refs/heads/main\<newline>'', Stdout ''0000'',
           ChildStdin ''push refs/heads/main:refs/heads/main\<newline>'', ChildStdin ''\<newline>'',
           Stdout ''000eok refs/heads/main\<newline>'', Stdout ''0000'',
           CloseStdin, CloseStdout, Wait])"
  by code_simp

lemma scenario_gittuf_push:
  "handleCurl quietEnv [''list for-push\<newline>'', ''push refs/heads/main:refs/heads/main\<newline>'', ''\<newline>'']
     [''abc refs/gittuf/reference-state-log\<newline>'', ''0000'', ''000eok refs/heads/main\<newline>'',
      ''0033ok refs/gittuf/reference-state-log\<newline>'', ''0000'']
   = Inr ([(''refs/gittuf/reference-state-log'', ''abc'')], True,
          [StdoutPipe, StdinPipe, Start, ChildStdin ''list for-push\<newline>'',
           Stdout ''abc refs/gittuf/reference-state-log\<newline>'', Stdout ''0000'',
           RslRecord ''refs/heads/main'' ''refs/heads/main'',
           ChildStdin ''push refs/heads/main:refs/heads/main\<newline>'',
           ChildStdin ''push refs/gittuf/reference-state-log:refs/gittuf/reference-state-log\<newline>'',
           ChildStdin ''\<newline>'', Stdout ''000eok refs/heads/main\<newline>'', Stdout ''0000'',
           CloseStdin, CloseStdout, Wait])"
  by code_simp

lemma scenario_fetch:
  "handleCurl quietEnv
     (lsRefsSession @ [''0012command=fetch\<newline>'', ''0001'', ''000dwant cafebabe\<newline>'', ''0000''])
     [''000eversion 2\<newline>'', ''0000'', ''0032deadbeef refs/gittuf/reference-state-log\<newline>'',
      ''0000'', ''0002'', ''000dpackfile\<newline>'', ''0000'', ''0002'']
   = Inr ([(''refs/gittuf/reference-state-log'', ''deadbeef'')], False,
          [StdoutPipe, StdinPipe, Start, ChildStdin ''stateless-connect git-upload-pack\<newline>'',
           Stdout ''000eversion 2\<newline>'', Stdout ''0000'',
           ChildStdin ''0014command=ls-refs\<newline>'', ChildStdin ''0001'',
           ChildStdin ''001cref-prefix refs/gittuf/\<newline>'', ChildStdin ''0000'',
           Stdout ''0032deadbeef refs/gittuf/reference-state-log\<newline>'', Stdout ''0000'',
           Stdout ''0002'', ChildStdin ''0012command=fetch\<newline>'', ChildStdin ''0001'',
           ChildStdin ''000dwant cafebabe\<newline>'', ChildStdin ''0012want deadbeef\<newline>'',
           ChildStdin ''0000'', Stdout ''000dpackfile\<newline>'', Stdout ''0000'', Stdout ''0002'',
           CloseStdin, CloseStdout, Wait])"
  by code_simp








section \<open>The push report\<close>

text \<open>
  C5: while the push report is drained, a packet that contains \<open>refs/gittuf/\<close> is not
  written to the controller, every other packet is written in the order of the child,
  and the drain consumes the child's packets up to and including the first flush-pkt
  (all of them when the child's output ends before): nothing else joins the trace.
\<close>

theorem push_report_suppression:
  assumes "pushReportDrain env out tr = Inr (rest, tr')"
  shows "tr' = tr @ map Stdout (filter (\<lambda>p. \<not> Contains p gittufRefPrefix) (throughFirst flushPkt out))
         \<and> rest = afterFirst flushPkt out"
  using assms
proof (induction out arbitrary: tr)
  case Nil
  then show ?case by (simp add: throughFirst_simps afterFirst_simps)
next
  case (Cons p out)
  show ?case
  proof (cases "Contains p gittufRefPrefix")
    case True
    then have "p \<noteq> flushPkt" using flushPkt_not_gittuf by auto
    with True Cons.prems have "pushReportDrain env out tr = Inr (rest, tr')" by simp
    from Cons.IH[OF this] True \<open>p \<noteq> flushPkt\<close> show ?thesis
      by (simp add: throughFirst_simps afterFirst_simps)
  next
    case False
    with Cons.prems have w: "\<not> fails env tr (Stdout p)"
      by (auto simp: perform_def split: if_splits)
    show ?thesis
    proof (cases "p = flushPkt")
      case True
      with False w Cons.prems show ?thesis
        by (simp add: perform_def throughFirst_simps afterFirst_simps)
    next
      case nf: False
      with False w Cons.prems have "pushReportDrain env out (tr @ [Stdout p]) = Inr (rest, tr')"
        by (simp add: perform_def)
      from Cons.IH[OF this] False nf show ?thesis
        by (simp add: throughFirst_simps afterFirst_simps)
    qed
  qed
qed

theorem push_report_suppression_witness:
  "pushReportDrain quietEnv
     [''000eok refs/heads/main\<newline>'', ''0033ok refs/gittuf/reference-state-log\<newline>'', ''0000'',
      ''0009more\<newline>''] [Start]
   = Inr ([''0009more\<newline>''], [Start, Stdout ''000eok refs/heads/main\<newline>'', Stdout ''0000''])
   \<and> [Start, Stdout ''000eok refs/heads/main\<newline>'', Stdout ''0000'']
       = [Start] @ map Stdout (filter (\<lambda>p. \<not> Contains p gittufRefPrefix)
           (throughFirst flushPkt
              [''000eok refs/heads/main\<newline>'', ''0033ok refs/gittuf/reference-state-log\<newline>'',
               ''0000'', ''0009more\<newline>'']))
   \<and> [''0009more\<newline>'']
       = afterFirst flushPkt
           [''000eok refs/heads/main\<newline>'', ''0033ok refs/gittuf/reference-state-log\<newline>'',
            ''0000'', ''0009more\<newline>'']"
proof -
  have run: "pushReportDrain quietEnv
     [''000eok refs/heads/main\<newline>'', ''0033ok refs/gittuf/reference-state-log\<newline>'', ''0000'',
      ''0009more\<newline>''] [Start]
   = Inr ([''0009more\<newline>''], [Start, Stdout ''000eok refs/heads/main\<newline>'', Stdout ''0000''])"
    by code_simp
  from run push_report_suppression[OF run] show ?thesis by blast
qed

section \<open>Commands passed through\<close>

text \<open>
  C7: a top-level command that is none of \<open>stateless-connect\<close>, \<open>list for-push\<close> and \<open>push\<close>
  is written to the child as received, the child's packets are then written to the
  controller in order up to and including the first flush-pkt, and nothing else happens:
  the state changes in the trace and in the child's remaining output only.
\<close>

theorem pass_through_fidelity:
  assumes "currentState s = start"
    and "\<not> HasPrefix command ''stateless-connect''"
    and "\<not> HasPrefix command ''list for-push''"
    and "\<not> HasPrefix command ''push''"
    and "dispatch env command s = Inr s'"
  shows "s' = s\<lparr>childOut := afterFirst flushPkt (childOut s),
                trace := trace s @ ChildStdin command # map Stdout (throughFirst flushPkt (childOut s))\<rparr>"
proof -
  from assms have o: "otherHelperCommand env command s = Inr s'"
    by (simp add: dispatch_def handleStart_def)
  then obtain tr saw out tr' where
    p: "perform env (ChildStdin command) (trace s) = Inr tr"
    and f: "forwardUntil env flushPkt (childOut s) tr = Inr (saw, out, tr')"
    and s': "s' = s\<lparr>childOut := out, trace := tr'\<rparr>"
    by (auto simp: otherHelperCommand_def split: sum.splits)
  from p have "tr = trace s @ [ChildStdin command]" by (simp add: perform_Inr)
  with forwardUntil_Inr[OF f] s' show ?thesis by simp
qed

theorem pass_through_fidelity_witness:
  "currentState capabilitiesState = start
   \<and> \<not> HasPrefix ''capabilities\<newline>'' ''stateless-connect''
   \<and> \<not> HasPrefix ''capabilities\<newline>'' ''list for-push''
   \<and> \<not> HasPrefix ''capabilities\<newline>'' ''push''
   \<and> dispatch quietEnv ''capabilities\<newline>'' capabilitiesState
       = Inr (capabilitiesState\<lparr>childOut := [''0009late\<newline>''],
               trace := [Start, ChildStdin ''capabilities\<newline>'', Stdout ''fetch\<newline>'',
                         Stdout ''push\<newline>'', Stdout ''0000'']\<rparr>)"
proof -
  have st: "currentState capabilitiesState = start"
    by (simp add: capabilitiesState_def initialState_def)
  have n1: "\<not> HasPrefix ''capabilities\<newline>'' ''stateless-connect''"
    and n2: "\<not> HasPrefix ''capabilities\<newline>'' ''list for-push''"
    and n3: "\<not> HasPrefix ''capabilities\<newline>'' ''push''"
    by (simp_all add: HasPrefix_def)
  have run: "dispatch quietEnv ''capabilities\<newline>'' capabilitiesState
       = Inr (capabilitiesState\<lparr>childOut := [''0009late\<newline>''],
               trace := [Start, ChildStdin ''capabilities\<newline>'', Stdout ''fetch\<newline>'',
                         Stdout ''push\<newline>'', Stdout ''0000'']\<rparr>)"
    by code_simp
  from pass_through_fidelity[OF st n1 n2 n3 run] st n1 n2 n3 run show ?thesis
    by simp
qed

section \<open>The arguments of ls-refs\<close>

text \<open>
  C4: in the state \<open>lsRefs\<close>, when the controller sends arguments without a flush-pkt and
  then a flush-pkt, and the run succeeds, the child receives the arguments unchanged, then
  the one pkt-line with the payload \<open>ref-prefix refs/gittuf/\<close> and a newline, then the
  flush-pkt, and nothing else; the child's answer is copied through the first
  response-end-pkt, and the run goes on in the state \<open>serviceRouter\<close> with the tokens that
  follow.
\<close>

theorem ls_refs_injection:
  assumes "currentState s = lsRefs"
    and "stdin s = args @ flushPkt # input"
    and "flushPkt \<notin> set args"
    and "mainLoop env s = Inr final"
  shows "refPrefixCommand = ''ref-prefix refs/gittuf/\<newline>'' \<and>
     (\<exists>tips. mainLoop env
        (s\<lparr>currentState := serviceRouter, stdin := input, gittufRefsTips := tips,
           childOut := afterFirst endOfReadPkt (childOut s),
           trace := trace s
              @ map ChildStdin (args @ [packetEncode env refPrefixCommand, flushPkt])
              @ map Stdout (throughFirst endOfReadPkt (childOut s))\<rparr>) = Inr final)"
proof
  show "refPrefixCommand = ''ref-prefix refs/gittuf/\<newline>''"
    by (simp add: refPrefixCommand_def gittufRefPrefix_def)
next
  let ?s1 = "s\<lparr>stdin := flushPkt # input, trace := trace s @ map ChildStdin args\<rparr>"
  let ?s0 = "?s1\<lparr>stdin := input\<rparr>"
  from lsRefs_arguments[OF assms] have m1: "mainLoop env ?s1 = Inr final" .
  have st: "stdin ?s1 = flushPkt # input" by simp
  from m1 obtain s2 where d: "dispatch env flushPkt ?s0 = Inr s2"
    by (subst (asm) mainLoop_Cons[OF st]) (auto split: sum.splits)
  with assms(1) have "handleLsRefs env flushPkt ?s0 = Inr s2"
    by (simp add: dispatch_def)
  from handleLsRefs_flush[OF this] obtain tips where
    s2: "s2 = ?s0\<lparr>currentState := serviceRouter, gittufRefsTips := tips,
            childOut := afterFirst endOfReadPkt (childOut ?s0),
            trace := trace ?s0 @ [ChildStdin (packetEncode env refPrefixCommand), ChildStdin flushPkt]
                     @ map Stdout (throughFirst endOfReadPkt (childOut ?s0))\<rparr>"
    by blast
  then have c2: "currentState s2 \<noteq> packfileDone" by simp
  from m1 d c2 have "mainLoop env s2 = Inr final"
    by (subst (asm) mainLoop_Cons[OF st]) simp
  moreover from s2 have "s2 = s\<lparr>currentState := serviceRouter, stdin := input, gittufRefsTips := tips,
           childOut := afterFirst endOfReadPkt (childOut s),
           trace := trace s
              @ map ChildStdin (args @ [packetEncode env refPrefixCommand, flushPkt])
              @ map Stdout (throughFirst endOfReadPkt (childOut s))\<rparr>"
    by (cases s) simp
  ultimately show "\<exists>tips. mainLoop env
        (s\<lparr>currentState := serviceRouter, stdin := input, gittufRefsTips := tips,
           childOut := afterFirst endOfReadPkt (childOut s),
           trace := trace s
              @ map ChildStdin (args @ [packetEncode env refPrefixCommand, flushPkt])
              @ map Stdout (throughFirst endOfReadPkt (childOut s))\<rparr>) = Inr final"
    by (intro exI[of _ tips]) simp
qed

theorem ls_refs_injection_witness:
  "currentState lsRefsState = lsRefs
   \<and> stdin lsRefsState = [''0001'', ''000bpeel\<newline>''] @ flushPkt # []
   \<and> flushPkt \<notin> set [''0001'', ''000bpeel\<newline>'']
   \<and> mainLoop quietEnv lsRefsState = Inr lsRefsFinal
   \<and> (\<exists>tips. mainLoop quietEnv
        (lsRefsState\<lparr>currentState := serviceRouter, stdin := [], gittufRefsTips := tips,
           childOut := afterFirst endOfReadPkt (childOut lsRefsState),
           trace := trace lsRefsState
              @ map ChildStdin ([''0001'', ''000bpeel\<newline>'']
                                @ [packetEncode quietEnv refPrefixCommand, flushPkt])
              @ map Stdout (throughFirst endOfReadPkt (childOut lsRefsState))\<rparr>) = Inr lsRefsFinal)"
proof -
  have h1: "currentState lsRefsState = lsRefs"
    by (simp add: lsRefsState_def)
  have h2: "stdin lsRefsState = [''0001'', ''000bpeel\<newline>''] @ flushPkt # []"
    by (simp add: lsRefsState_def initialState_def flushPkt_def)
  have h3: "flushPkt \<notin> set [''0001'', ''000bpeel\<newline>'']"
    by (simp add: flushPkt_def)
  have run: "mainLoop quietEnv lsRefsState = Inr lsRefsFinal"
    by code_simp
  from ls_refs_injection[OF h1 h2 h3 run] h1 h2 h3 run show ?thesis
    by blast
qed

section \<open>The wants of a fetch\<close>

text \<open>
  C3: in the state \<open>requestingWants\<close>, when the controller sends packets without a flush-pkt
  and then a flush-pkt, and the run succeeds, the child receives those packets unchanged,
  then one pkt-line \<open>want oid\<close> with a newline for every entry of \<open>gittufRefsTips\<close> (one per
  entry, in some order), then the flush-pkt, and nothing else; the response is copied
  through the first response-end-pkt. When a non-empty token follows a response-end-pkt,
  the run goes on as the main loop in the state \<open>requestingWants\<close> again on that token, with
  the same map: the follow-up batch is a batch like the first, and the statement holds
  for it again. Otherwise the run ends in \<open>packfileDone\<close>.
\<close>

theorem fetch_wants_injection:
  assumes "currentState s = requestingWants"
    and "stdin s = args @ flushPkt # input"
    and "flushPkt \<notin> set args"
    and "mainLoop env s = Inr final"
  shows "\<exists>wants.
     mset wants
       = image_mset (\<lambda>(ref, oid). packetEncode env (''want '' @ oid @ ''\<newline>''))
           (mset (gittufRefsTips s))
     \<and> (let after = s\<lparr>childOut := afterFirst endOfReadPkt (childOut s),
                        trace := trace s @ map ChildStdin (args @ wants @ [flushPkt])
                                   @ map Stdout (throughFirst endOfReadPkt (childOut s))\<rparr>
         in if endOfReadPkt \<in> set (childOut s) \<and> input \<noteq> [] \<and> hd input \<noteq> []
            then mainLoop env (after\<lparr>stdin := input\<rparr>) = Inr final
            else final = after\<lparr>stdin := (if endOfReadPkt \<in> set (childOut s) then drop 1 input
                                             else input),
                                  currentState := packfileDone\<rparr>)"
proof -
  let ?s1 = "s\<lparr>stdin := flushPkt # input, trace := trace s @ map ChildStdin args\<rparr>"
  define s0 where "s0 = ?s1\<lparr>stdin := input\<rparr>"
  have f0: "stdin s0 = input" "childOut s0 = childOut s"
    "trace s0 = trace s @ map ChildStdin args" "gittufRefsTips s0 = gittufRefsTips s"
    by (simp_all add: s0_def)
  from requestingWants_arguments[OF assms] have m1: "mainLoop env ?s1 = Inr final" .
  have st: "stdin ?s1 = flushPkt # input" by simp
  from m1 obtain s3 where d: "dispatch env flushPkt s0 = Inr s3"
    and fin: "if currentState s3 = packfileDone then final = s3 else mainLoop env s3 = Inr final"
    unfolding s0_def
    by (subst (asm) mainLoop_Cons[OF st]) (auto split: sum.splits if_splits)
  from d assms(1) have h: "handleRequestingWants env flushPkt s0 = Inr s3"
    by (simp add: dispatch_def s0_def)
  from handleRequestingWants_flush[OF h] obtain wants where
    ms: "mset wants
           = image_mset (\<lambda>(ref, oid). packetEncode env (wantCommand oid)) (mset (gittufRefsTips s))"
    and body: "if endOfReadPkt \<in> set (childOut s) \<and> input \<noteq> [] \<and> hd input \<noteq> []
            then handleRequestingWants env (hd input)
                   (s0\<lparr>currentState := requestingWants, stdin := tl input,
                      childOut := afterFirst endOfReadPkt (childOut s),
                      trace := (trace s @ map ChildStdin args) @ map ChildStdin (wants @ [flushPkt])
                                 @ map Stdout (throughFirst endOfReadPkt (childOut s))\<rparr>) = Inr s3
            else s3 = s0\<lparr>currentState := packfileDone,
                         stdin := (if endOfReadPkt \<in> set (childOut s) then drop 1 input else input),
                         childOut := afterFirst endOfReadPkt (childOut s),
                         trace := (trace s @ map ChildStdin args) @ map ChildStdin (wants @ [flushPkt])
                                    @ map Stdout (throughFirst endOfReadPkt (childOut s))\<rparr>"
    unfolding Let_def f0 by blast
  let ?after = "s\<lparr>childOut := afterFirst endOfReadPkt (childOut s),
                   trace := trace s @ map ChildStdin (args @ wants @ [flushPkt])
                              @ map Stdout (throughFirst endOfReadPkt (childOut s))\<rparr>"
  have "if endOfReadPkt \<in> set (childOut s) \<and> input \<noteq> [] \<and> hd input \<noteq> []
        then mainLoop env (?after\<lparr>stdin := input\<rparr>) = Inr final
        else final = ?after\<lparr>stdin := (if endOfReadPkt \<in> set (childOut s) then drop 1 input
                                          else input),
                               currentState := packfileDone\<rparr>"
  proof (cases "endOfReadPkt \<in> set (childOut s) \<and> input \<noteq> [] \<and> hd input \<noteq> []")
    case True
    then obtain n rest where inp: "input = n # rest" and n: "n \<noteq> []"
      by (cases input) auto
    let ?t = "?after\<lparr>stdin := input\<rparr>"
    have stt: "stdin ?t = n # rest" using inp by simp
    have eq: "?t\<lparr>stdin := rest\<rparr>
               = s0\<lparr>currentState := requestingWants, stdin := tl input,
                      childOut := afterFirst endOfReadPkt (childOut s),
                      trace := (trace s @ map ChildStdin args) @ map ChildStdin (wants @ [flushPkt])
                                 @ map Stdout (throughFirst endOfReadPkt (childOut s))\<rparr>"
      using assms(1) inp unfolding s0_def by (cases s) simp
    from body True have "handleRequestingWants env (hd input)
                   (s0\<lparr>currentState := requestingWants, stdin := tl input,
                      childOut := afterFirst endOfReadPkt (childOut s),
                      trace := (trace s @ map ChildStdin args) @ map ChildStdin (wants @ [flushPkt])
                                 @ map Stdout (throughFirst endOfReadPkt (childOut s))\<rparr>) = Inr s3"
      by (simp only: if_True simp_thms)
    then have "handleRequestingWants env n (?t\<lparr>stdin := rest\<rparr>) = Inr s3"
      unfolding eq[symmetric] using inp by simp
    with assms(1) have "dispatch env n (?t\<lparr>stdin := rest\<rparr>) = Inr s3"
      by (simp add: dispatch_def)
    with fin have "mainLoop env ?t = Inr final"
      by (subst mainLoop_Cons[OF stt]) auto
    with True show ?thesis by simp
  next
    case False
    with body have "s3 = s0\<lparr>currentState := packfileDone,
                         stdin := (if endOfReadPkt \<in> set (childOut s) then drop 1 input else input),
                         childOut := afterFirst endOfReadPkt (childOut s),
                         trace := (trace s @ map ChildStdin args) @ map ChildStdin (wants @ [flushPkt])
                                    @ map Stdout (throughFirst endOfReadPkt (childOut s))\<rparr>"
      by (simp only: if_False simp_thms)
    then have "s3 = ?after\<lparr>stdin := (if endOfReadPkt \<in> set (childOut s) then drop 1 input
                                          else input),
                               currentState := packfileDone\<rparr>"
      unfolding s0_def by (cases s) simp
    moreover from this have "currentState s3 = packfileDone" by simp
    with fin have "final = s3" by simp
    ultimately have "final = ?after\<lparr>stdin := (if endOfReadPkt \<in> set (childOut s) then drop 1 input
                                          else input),
                               currentState := packfileDone\<rparr>"
      by simp
    then show ?thesis unfolding if_not_P[OF False] .
  qed
  moreover from ms have "mset wants
       = image_mset (\<lambda>(ref, oid). packetEncode env (''want '' @ oid @ ''\<newline>''))
           (mset (gittufRefsTips s))"
    by (simp add: wantCommand_def)
  ultimately show ?thesis unfolding Let_def by blast
qed

theorem fetch_wants_injection_witness:
  "currentState wantsState = requestingWants
   \<and> stdin wantsState
       = [''000dwant cafebabe\<newline>''] @ flushPkt # [''000dwant 0badcafe\<newline>'', ''0000'']
   \<and> flushPkt \<notin> set [''000dwant cafebabe\<newline>'']
   \<and> mainLoop quietEnv wantsState = Inr wantsFinal
   \<and> (\<exists>wants.
     mset wants
       = image_mset (\<lambda>(ref, oid). packetEncode quietEnv (''want '' @ oid @ ''\<newline>''))
           (mset (gittufRefsTips wantsState))
     \<and> (let after = wantsState\<lparr>childOut := afterFirst endOfReadPkt (childOut wantsState),
                        trace := trace wantsState
                                   @ map ChildStdin ([''000dwant cafebabe\<newline>''] @ wants @ [flushPkt])
                                   @ map Stdout (throughFirst endOfReadPkt (childOut wantsState))\<rparr>
         in if endOfReadPkt \<in> set (childOut wantsState)
               \<and> [''000dwant 0badcafe\<newline>'', ''0000''] \<noteq> []
               \<and> hd [''000dwant 0badcafe\<newline>'', ''0000''] \<noteq> []
            then mainLoop quietEnv (after\<lparr>stdin := [''000dwant 0badcafe\<newline>'', ''0000'']\<rparr>)
                   = Inr wantsFinal
            else wantsFinal
                   = after\<lparr>stdin := (if endOfReadPkt \<in> set (childOut wantsState)
                                       then drop 1 [''000dwant 0badcafe\<newline>'', ''0000'']
                                       else [''000dwant 0badcafe\<newline>'', ''0000'']),
                            currentState := packfileDone\<rparr>))"
proof -
  have h1: "currentState wantsState = requestingWants"
    by (simp add: wantsState_def)
  have h2: "stdin wantsState
       = [''000dwant cafebabe\<newline>''] @ flushPkt # [''000dwant 0badcafe\<newline>'', ''0000'']"
    by (simp add: wantsState_def initialState_def flushPkt_def)
  have h3: "flushPkt \<notin> set [''000dwant cafebabe\<newline>'']"
    by (simp add: flushPkt_def)
  have run: "mainLoop quietEnv wantsState = Inr wantsFinal"
    by code_simp
  from fetch_wants_injection[OF h1 h2 h3 run] h1 h2 h3 run show ?thesis
    by blast
qed

section \<open>RSL entries before pushes\<close>



section \<open>The end of a push batch\<close>

text \<open>
  C2: when the buffering loop reads the blank line that ends a batch and succeeds, the
  buffer holds the commands received before the blank line, after those buffered earlier,
  in the controller's order; the child has been written exactly the buffered commands in
  that order, then, if and only if \<open>gittufRefsTips\<close> is not empty, the line
  \<open>push refs/gittuf/reference-state-log:refs/gittuf/reference-state-log\<close>, then one blank
  line. When \<open>gittufRefsTips\<close> is empty these writes are all that happens: no
  \<open>gittuf rsl record\<close> runs.
\<close>

theorem push_batch_forwarded:
  assumes "pushBatch env tips command input cmds tr = Inr (input', cmds', tr')"
    and "''\<newline>'' \<in> set (command # input)"
  shows "cmds' = cmds @ takeWhile (\<lambda>c. c \<noteq> ''\<newline>'') (command # input)
     \<and> childWrites tr'
         = childWrites tr @ cmds'
           @ (if tips \<noteq> []
              then [''push refs/gittuf/reference-state-log:refs/gittuf/reference-state-log\<newline>'']
              else [])
           @ [''\<newline>'']
     \<and> (tips = [] \<longrightarrow> tr' = tr @ map ChildStdin (cmds' @ [''\<newline>'']))"
proof -
  from pushBatch_Inr[OF assms(1)] assms(2) have
    c: "cmds' = cmds @ takeWhile (\<lambda>c. c \<noteq> [CHR 0x0A]) (command # input)"
    and e: "endPushBatch env tips cmds' tr = Inr tr'"
    by auto
  from endPushBatch_Inr[OF e] have
    tr': "tr' = tr @ concat (map (pushEvents tips) cmds')
              @ (if tips \<noteq> [] then [ChildStdin rslPush] else []) @ [ChildStdin [CHR 0x0A]]" .
  have r: "rslPush = ''push refs/gittuf/reference-state-log:refs/gittuf/reference-state-log\<newline>''"
    by (simp add: rslPush_def rslRef_def)
  from tr' have "childWrites tr'
         = childWrites tr @ cmds' @ (if tips \<noteq> [] then [rslPush] else []) @ [''\<newline>'']"
    by (simp add: childWrites_simps childWrites_pushEvents)
  moreover from tr' have "tips = [] \<longrightarrow> tr' = tr @ map ChildStdin (cmds' @ [''\<newline>''])"
    by (simp add: pushEvents_not_enabled)
  ultimately show ?thesis using c r by simp
qed

theorem push_batch_forwarded_witness:
  "pushBatch quietEnv rslTip ''push refs/heads/main:refs/heads/main\<newline>''
     [''push refs/heads/dev:refs/heads/dev\<newline>'', ''\<newline>'', ''option verbosity 1\<newline>''] [] [Start]
   = Inr ([''option verbosity 1\<newline>''],
          [''push refs/heads/main:refs/heads/main\<newline>'', ''push refs/heads/dev:refs/heads/dev\<newline>''],
          [Start, RslRecord ''refs/heads/main'' ''refs/heads/main'',
           ChildStdin ''push refs/heads/main:refs/heads/main\<newline>'',
           RslRecord ''refs/heads/dev'' ''refs/heads/dev'',
           ChildStdin ''push refs/heads/dev:refs/heads/dev\<newline>'',
           ChildStdin ''push refs/gittuf/reference-state-log:refs/gittuf/reference-state-log\<newline>'',
           ChildStdin ''\<newline>''])
   \<and> ''\<newline>'' \<in> set (''push refs/heads/main:refs/heads/main\<newline>''
                      # [''push refs/heads/dev:refs/heads/dev\<newline>'', ''\<newline>'',
                         ''option verbosity 1\<newline>''])
   \<and> pushBatch quietEnv [] ''push refs/heads/main:refs/heads/main\<newline>'' [''\<newline>''] [] [Start]
   = Inr ([], [''push refs/heads/main:refs/heads/main\<newline>''],
          [Start] @ map ChildStdin ([''push refs/heads/main:refs/heads/main\<newline>''] @ [''\<newline>'']))"
proof -
  have run: "pushBatch quietEnv rslTip ''push refs/heads/main:refs/heads/main\<newline>''
     [''push refs/heads/dev:refs/heads/dev\<newline>'', ''\<newline>'', ''option verbosity 1\<newline>''] [] [Start]
   = Inr ([''option verbosity 1\<newline>''],
          [''push refs/heads/main:refs/heads/main\<newline>'', ''push refs/heads/dev:refs/heads/dev\<newline>''],
          [Start, RslRecord ''refs/heads/main'' ''refs/heads/main'',
           ChildStdin ''push refs/heads/main:refs/heads/main\<newline>'',
           RslRecord ''refs/heads/dev'' ''refs/heads/dev'',
           ChildStdin ''push refs/heads/dev:refs/heads/dev\<newline>'',
           ChildStdin ''push refs/gittuf/reference-state-log:refs/gittuf/reference-state-log\<newline>'',
           ChildStdin ''\<newline>''])"
    by code_simp
  have nl: "''\<newline>'' \<in> set (''push refs/heads/main:refs/heads/main\<newline>''
                      # [''push refs/heads/dev:refs/heads/dev\<newline>'', ''\<newline>'',
                         ''option verbosity 1\<newline>''])"
    by simp
  have plain: "pushBatch quietEnv [] ''push refs/heads/main:refs/heads/main\<newline>'' [''\<newline>''] [] [Start]
   = Inr ([], [''push refs/heads/main:refs/heads/main\<newline>''],
          [Start, ChildStdin ''push refs/heads/main:refs/heads/main\<newline>'', ChildStdin ''\<newline>''])"
    by code_simp
  have nl2: "''\<newline>'' \<in> set (''push refs/heads/main:refs/heads/main\<newline>'' # [''\<newline>''])"
    by simp
  from push_batch_forwarded[OF run nl] push_batch_forwarded[OF plain nl2] run nl plain
  show ?thesis by simp
qed

section \<open>The shape of buffered push commands\<close>

text \<open>
  C10: when every buffered push command has a refspec with a colon, the loop over the
  buffer never indexes out of range. On a gittuf-enabled remote a command without such a
  refspec, once the loop reaches it, makes the loop panic with an index out of range
  before the command is forwarded. When the remote is not gittuf-enabled the refspec is
  not parsed and no index is out of range.
\<close>

theorem push_refspec_shape:
  "((\<forall>c \<in> set cmds. hasColonRefSpec c)
       \<longrightarrow> (\<forall>tr'. forwardPushCommands env tips cmds tr \<noteq> Inl (IndexOutOfRange, tr')))
   \<and> (\<forall>k trk. tips \<noteq> [] \<and> k < length cmds \<and> \<not> hasColonRefSpec (cmds ! k)
         \<and> forwardPushCommands env tips (take k cmds) tr = Inr trk
       \<longrightarrow> forwardPushCommands env tips cmds tr = Inl (IndexOutOfRange, trk))
   \<and> (tips = [] \<longrightarrow> (\<forall>tr'. forwardPushCommands env tips cmds tr \<noteq> Inl (IndexOutOfRange, tr')))"
proof (intro conjI allI impI notI)
  fix tr'
  assume shaped: "\<forall>c \<in> set cmds. hasColonRefSpec c"
    and "forwardPushCommands env tips cmds tr = Inl (IndexOutOfRange, tr')"
  from forwardPushCommands_Inl[OF this(2)] obtain k where k: "k < length cmds"
    and "recordPush env tips (cmds ! k) (tr @ concat (map (pushEvents tips) (take k cmds)))
           = Inl (IndexOutOfRange, tr')"
    by auto
  from recordPush_Inl[OF this(2)] have "parseRefSpec (cmds ! k) = None" by auto
  with shaped k show False by (simp add: parseRefSpec_None)
next
  fix k trk
  assume a: "tips \<noteq> [] \<and> k < length cmds \<and> \<not> hasColonRefSpec (cmds ! k)
         \<and> forwardPushCommands env tips (take k cmds) tr = Inr trk"
  then have split: "cmds = take k cmds @ cmds ! k # drop (Suc k) cmds"
    by (simp add: id_take_nth_drop)
  from a have "recordPush env tips (cmds ! k) trk = Inl (IndexOutOfRange, trk)"
    by (simp add: recordPush_def parseRefSpec_None[symmetric])
  then have "forwardPushCommands env tips (cmds ! k # drop (Suc k) cmds) trk
               = Inl (IndexOutOfRange, trk)"
    by simp
  with a have "forwardPushCommands env tips (take k cmds @ cmds ! k # drop (Suc k) cmds) tr
               = Inl (IndexOutOfRange, trk)"
    by (simp add: forwardPushCommands_append)
  with split show "forwardPushCommands env tips cmds tr = Inl (IndexOutOfRange, trk)"
    by simp
next
  fix tr'
  assume "tips = []" and "forwardPushCommands env tips cmds tr = Inl (IndexOutOfRange, tr')"
  from forwardPushCommands_Inl[OF this(2)] obtain k where
    "recordPush env tips (cmds ! k) (tr @ concat (map (pushEvents tips) (take k cmds)))
           = Inl (IndexOutOfRange, tr')"
    by auto
  from recordPush_Inl[OF this] \<open>tips = []\<close> show False by simp
qed

theorem push_refspec_shape_witness:
  "hasColonRefSpec ''push refs/heads/main:refs/heads/main\<newline>''
   \<and> hasColonRefSpec ''push refs/heads/dev:refs/heads/dev\<newline>''
   \<and> hasColonRefSpec ''push refs/tags/v1:refs/tags/v1\<newline>''
   \<and> forwardPushCommands quietEnv rslTip threePushes [Start]
       \<noteq> Inl (IndexOutOfRange, [Start])
   \<and> rslTip \<noteq> [] \<and> (1::nat) < length noColonPushes \<and> \<not> hasColonRefSpec (noColonPushes ! 1)
   \<and> forwardPushCommands quietEnv rslTip (take 1 noColonPushes) [Start]
       = Inr [Start, RslRecord ''refs/heads/main'' ''refs/heads/main'',
              ChildStdin ''push refs/heads/main:refs/heads/main\<newline>'']
   \<and> forwardPushCommands quietEnv rslTip noColonPushes [Start]
       = Inl (IndexOutOfRange,
              [Start, RslRecord ''refs/heads/main'' ''refs/heads/main'',
               ChildStdin ''push refs/heads/main:refs/heads/main\<newline>''])
   \<and> forwardPushCommands quietEnv [] noColonPushes [Start] \<noteq> Inl (IndexOutOfRange, [Start])"
proof -
  have c1: "hasColonRefSpec ''push refs/heads/main:refs/heads/main\<newline>''"
    and c2: "hasColonRefSpec ''push refs/heads/dev:refs/heads/dev\<newline>''"
    and c3: "hasColonRefSpec ''push refs/tags/v1:refs/tags/v1\<newline>''"
    by code_simp+
  then have h0: "\<forall>c \<in> set threePushes. hasColonRefSpec c"
    by (simp add: threePushes_def)
  have h1: "rslTip \<noteq> []" by (simp add: rslTip_def)
  have h2: "(1::nat) < length noColonPushes" by (simp add: noColonPushes_def)
  have h3: "\<not> hasColonRefSpec (noColonPushes ! 1)"
    by code_simp
  have h4: "forwardPushCommands quietEnv rslTip (take 1 noColonPushes) [Start]
       = Inr [Start, RslRecord ''refs/heads/main'' ''refs/heads/main'',
              ChildStdin ''push refs/heads/main:refs/heads/main\<newline>'']"
    by code_simp
  note t1 = push_refspec_shape[of threePushes quietEnv rslTip "[Start]"]
  note t2 = push_refspec_shape[of noColonPushes quietEnv rslTip "[Start]"]
  note t3 = push_refspec_shape[of noColonPushes quietEnv "[]" "[Start]"]
  from t1 h0 have a: "forwardPushCommands quietEnv rslTip threePushes [Start]
       \<noteq> Inl (IndexOutOfRange, [Start])"
    by blast
  from t2 h1 h2 h3 h4 have b: "forwardPushCommands quietEnv rslTip noColonPushes [Start]
       = Inl (IndexOutOfRange,
              [Start, RslRecord ''refs/heads/main'' ''refs/heads/main'',
               ChildStdin ''push refs/heads/main:refs/heads/main\<newline>''])"
    by blast
  from t3 have c: "forwardPushCommands quietEnv [] noColonPushes [Start] \<noteq> Inl (IndexOutOfRange, [Start])"
    by blast
  from a b c c1 c2 c3 h1 h2 h3 h4 show ?thesis by blast
qed

section \<open>The keys of the map\<close>

text \<open>
  C9: every key of \<open>gittufRefsTips\<close> starts with \<open>refs/gittuf/\<close>, and no key is ever removed.
  The map is empty at the start; both insertion sites (the answer to \<open>list for-push\<close> and
  the answer to \<open>ls-refs\<close>) keep the property and the present keys; so does the handling of
  every command in every state, and so does the whole main loop from any state; the map
  that \<open>handleCurl\<close> returns has the property.
\<close>

theorem gittuf_keys_invariant:
  "gittufKeys (gittufRefsTips (initialState input out tr))
   \<and> (gittufKeys tips
       \<longrightarrow> gittufKeys (recordListedRef output tips) \<and> keysKept tips (recordListedRef output tips))
   \<and> (\<forall>tips'. gittufKeys tips \<and> recordAdvertisedRef output tips = Inr tips'
       \<longrightarrow> gittufKeys tips' \<and> keysKept tips tips')
   \<and> (\<forall>s'. gittufKeys (gittufRefsTips s) \<and> dispatch env command s = Inr s'
       \<longrightarrow> gittufKeys (gittufRefsTips s') \<and> keysKept (gittufRefsTips s) (gittufRefsTips s'))
   \<and> (\<forall>s'. gittufKeys (gittufRefsTips s) \<and> mainLoop env s = Inr s'
       \<longrightarrow> gittufKeys (gittufRefsTips s') \<and> keysKept (gittufRefsTips s) (gittufRefsTips s'))
   \<and> (\<forall>tips' p tr'. handleCurl env input out = Inr (tips', p, tr') \<longrightarrow> gittufKeys tips')"
proof (intro conjI allI impI)
  show "gittufKeys (gittufRefsTips (initialState input out tr))"
    by (simp add: initialState_def gittufKeys_def)
next
  assume "gittufKeys tips"
  then show "gittufKeys (recordListedRef output tips)"
    and "keysKept tips (recordListedRef output tips)"
    by (simp_all add: recordListedRef_keys)
next
  fix tips'
  assume "gittufKeys tips \<and> recordAdvertisedRef output tips = Inr tips'"
  then show "gittufKeys tips'" and "keysKept tips tips'"
    by (auto dest: recordAdvertisedRef_keys)
next
  fix s'
  assume "gittufKeys (gittufRefsTips s) \<and> dispatch env command s = Inr s'"
  then show "gittufKeys (gittufRefsTips s')"
    and "keysKept (gittufRefsTips s) (gittufRefsTips s')"
    by (auto dest: dispatch_keys)
next
  fix s'
  assume "gittufKeys (gittufRefsTips s) \<and> mainLoop env s = Inr s'"
  then show "gittufKeys (gittufRefsTips s')"
    and "keysKept (gittufRefsTips s) (gittufRefsTips s')"
    by (auto dest: mainLoop_keys)
next
  fix tips' p tr'
  assume h: "handleCurl env input out = Inr (tips', p, tr')"
  then obtain s' where t: "translate env input out = Inr s'" and sh: "shutdown env s' = Inr (tips', p, tr')"
    by (auto simp: handleCurl_def split: sum.splits)
  from t obtain tr0 where m: "mainLoop env (initialState input out tr0) = Inr s'"
    by (auto simp: translate_def split: sum.splits)
  have "gittufKeys (gittufRefsTips (initialState input out tr0))"
    by (simp add: initialState_def gittufKeys_def)
  from mainLoop_keys[OF this m] have "gittufKeys (gittufRefsTips s')" by simp
  moreover from sh have "tips' = gittufRefsTips s'"
    by (auto simp: shutdown_def split: sum.splits)
  ultimately show "gittufKeys tips'" by simp
qed

theorem gittuf_keys_invariant_witness:
  "gittufKeys rslTip
   \<and> recordListedRef ''f00dfeed refs/gittuf/policy\<newline>'' rslTip
       = [(''refs/gittuf/reference-state-log'', ''abc''), (''refs/gittuf/policy'', ''f00dfeed'')]
   \<and> keysKept rslTip (recordListedRef ''f00dfeed refs/gittuf/policy\<newline>'' rslTip)
   \<and> recordAdvertisedRef ''0025f00dfeed refs/gittuf/policy\<newline>'' rslTip
       = Inr [(''refs/gittuf/reference-state-log'', ''abc''), (''refs/gittuf/policy'', ''f00dfeed'')]
   \<and> gittufKeys (gittufRefsTips lsRefsState)
   \<and> mainLoop quietEnv lsRefsState = Inr lsRefsFinal
   \<and> gittufKeys (gittufRefsTips lsRefsFinal)
   \<and> keysKept (gittufRefsTips lsRefsState) (gittufRefsTips lsRefsFinal)
   \<and> dispatch quietEnv ''0000'' (lsRefsState\<lparr>stdin := []\<rparr>)
       = Inr (lsRefsFinal\<lparr>trace := [Start, ChildStdin ''001cref-prefix refs/gittuf/\<newline>'',
                ChildStdin ''0000'', Stdout ''0032deadbeef refs/gittuf/reference-state-log\<newline>'',
                Stdout ''0000'', Stdout ''0002'']\<rparr>)
   \<and> handleCurl quietEnv lsRefsSession lsRefsAnswer
       = Inr ([(''refs/gittuf/reference-state-log'', ''deadbeef''), (''refs/gittuf/policy'', ''f00dfeed'')],
              False,
              [StdoutPipe, StdinPipe, Start, ChildStdin ''stateless-connect git-upload-pack\<newline>'',
               Stdout ''000eversion 2\<newline>'', Stdout ''0000'',
               ChildStdin ''0014command=ls-refs\<newline>'', ChildStdin ''0001'',
               ChildStdin ''001cref-prefix refs/gittuf/\<newline>'', ChildStdin ''0000'',
               Stdout ''0020cafebabe refs/heads/main\<newline>'',
               Stdout ''0032deadbeef refs/gittuf/reference-state-log\<newline>'',
               Stdout ''0025f00dfeed refs/gittuf/policy\<newline>'', Stdout ''0000'', Stdout ''0002'',
               CloseStdin, CloseStdout, Wait])
   \<and> gittufKeys [(''refs/gittuf/reference-state-log'', ''deadbeef''), (''refs/gittuf/policy'', ''f00dfeed'')]"
proof -
  have g0: "gittufKeys rslTip" by code_simp
  have l: "recordListedRef ''f00dfeed refs/gittuf/policy\<newline>'' rslTip
       = [(''refs/gittuf/reference-state-log'', ''abc''), (''refs/gittuf/policy'', ''f00dfeed'')]"
    by code_simp
  have a: "recordAdvertisedRef ''0025f00dfeed refs/gittuf/policy\<newline>'' rslTip
       = Inr [(''refs/gittuf/reference-state-log'', ''abc''), (''refs/gittuf/policy'', ''f00dfeed'')]"
    by code_simp
  have g1: "gittufKeys (gittufRefsTips lsRefsState)" by code_simp
  have g2: "gittufKeys (gittufRefsTips (lsRefsState\<lparr>stdin := []\<rparr>))" by code_simp
  have m: "mainLoop quietEnv lsRefsState = Inr lsRefsFinal" by code_simp
  have d: "dispatch quietEnv ''0000'' (lsRefsState\<lparr>stdin := []\<rparr>)
       = Inr (lsRefsFinal\<lparr>trace := [Start, ChildStdin ''001cref-prefix refs/gittuf/\<newline>'',
                ChildStdin ''0000'', Stdout ''0032deadbeef refs/gittuf/reference-state-log\<newline>'',
                Stdout ''0000'', Stdout ''0002'']\<rparr>)"
    by code_simp
  have h: "handleCurl quietEnv lsRefsSession lsRefsAnswer
       = Inr ([(''refs/gittuf/reference-state-log'', ''deadbeef''), (''refs/gittuf/policy'', ''f00dfeed'')],
              False,
              [StdoutPipe, StdinPipe, Start, ChildStdin ''stateless-connect git-upload-pack\<newline>'',
               Stdout ''000eversion 2\<newline>'', Stdout ''0000'',
               ChildStdin ''0014command=ls-refs\<newline>'', ChildStdin ''0001'',
               ChildStdin ''001cref-prefix refs/gittuf/\<newline>'', ChildStdin ''0000'',
               Stdout ''0020cafebabe refs/heads/main\<newline>'',
               Stdout ''0032deadbeef refs/gittuf/reference-state-log\<newline>'',
               Stdout ''0025f00dfeed refs/gittuf/policy\<newline>'', Stdout ''0000'', Stdout ''0002'',
               CloseStdin, CloseStdout, Wait])"
    by code_simp
  note t1 = gittuf_keys_invariant[of lsRefsSession lsRefsAnswer "[]" rslTip
      "''f00dfeed refs/gittuf/policy\<newline>''" lsRefsState quietEnv "''0000''"]
  note t2 = gittuf_keys_invariant[of lsRefsSession lsRefsAnswer "[]" rslTip
      "''0025f00dfeed refs/gittuf/policy\<newline>''" "lsRefsState\<lparr>stdin := []\<rparr>" quietEnv "''0000''"]
  from t1 g0 have k1: "keysKept rslTip (recordListedRef ''f00dfeed refs/gittuf/policy\<newline>'' rslTip)"
    by blast
  from t1 g1 m have k2: "gittufKeys (gittufRefsTips lsRefsFinal)
     \<and> keysKept (gittufRefsTips lsRefsState) (gittufRefsTips lsRefsFinal)"
    by blast
  from t2 h have k3:
    "gittufKeys [(''refs/gittuf/reference-state-log'', ''deadbeef''), (''refs/gittuf/policy'', ''f00dfeed'')]"
    by blast
  from g0 l a g1 m d h k1 k2 k3 show ?thesis by blast
qed

section \<open>The answer to ls-refs\<close>

text \<open>
  C6: the drain of the answer to \<open>ls-refs\<close> indexes the second space-separated component
  of every packet other than flush-pkt and response-end-pkt without a test of the number
  of components. On an answer that holds a delim-pkt, whose payload is empty, the helper
  stops with an index out of range, before that packet reaches the controller. The drain
  of the answer to \<open>list for-push\<close> tests the number of components and passes the same
  packet through.
\<close>

theorem ls_refs_response_out_of_range:
  "handleCurl quietEnv lsRefsSession delimAnswer
     = Inl (IndexOutOfRange,
            [StdoutPipe, StdinPipe, Start, ChildStdin ''stateless-connect git-upload-pack\<newline>'',
             Stdout ''000eversion 2\<newline>'', Stdout ''0000'',
             ChildStdin ''0014command=ls-refs\<newline>'', ChildStdin ''0001'',
             ChildStdin ''001cref-prefix refs/gittuf/\<newline>'', ChildStdin ''0000'',
             Stdout ''0032deadbeef refs/gittuf/reference-state-log\<newline>''])
   \<and> recordAdvertisedRef ''0001'' [] = Inl IndexOutOfRange
   \<and> handleCurl quietEnv [''list for-push\<newline>''] [''0001'', ''0000'']
     = Inr ([], False,
            [StdoutPipe, StdinPipe, Start, ChildStdin ''list for-push\<newline>'', Stdout ''0001'',
             Stdout ''0000'', CloseStdin, CloseStdout, Wait])"
  by code_simp

section \<open>Shutdown\<close>

text \<open>
  C8, as stated, fails: when \<open>gittuf rsl record\<close> fails during a push, the helper returns
  the error and has neither closed a pipe of the child nor waited for it.
\<close>

theorem cleanup_on_error_counterexample:
  "handleCurl rejectEnv pushSession pushAnswer
     = Inl (Failed (RslRecord ''refs/heads/dev'' ''refs/heads/dev''),
            [StdoutPipe, StdinPipe, Start, ChildStdin ''list for-push\<newline>'',
             Stdout ''abc refs/gittuf/reference-state-log\<newline>'', Stdout ''0000'',
             RslRecord ''refs/heads/main'' ''refs/heads/main'',
             ChildStdin ''push refs/heads/main:refs/heads/main\<newline>''])
   \<and> CloseStdin \<notin> set [StdoutPipe, StdinPipe, Start, ChildStdin ''list for-push\<newline>'',
             Stdout ''abc refs/gittuf/reference-state-log\<newline>'', Stdout ''0000'',
             RslRecord ''refs/heads/main'' ''refs/heads/main'',
             ChildStdin ''push refs/heads/main:refs/heads/main\<newline>'']
   \<and> CloseStdout \<notin> set [StdoutPipe, StdinPipe, Start, ChildStdin ''list for-push\<newline>'',
             Stdout ''abc refs/gittuf/reference-state-log\<newline>'', Stdout ''0000'',
             RslRecord ''refs/heads/main'' ''refs/heads/main'',
             ChildStdin ''push refs/heads/main:refs/heads/main\<newline>'']
   \<and> Wait \<notin> set [StdoutPipe, StdinPipe, Start, ChildStdin ''list for-push\<newline>'',
             Stdout ''abc refs/gittuf/reference-state-log\<newline>'', Stdout ''0000'',
             RslRecord ''refs/heads/main'' ''refs/heads/main'',
             ChildStdin ''push refs/heads/main:refs/heads/main\<newline>'']"
  by code_simp

text \<open>
  C8, amended: when the translation ends without an error, the helper closes the child's
  standard input, then the child's standard output, then waits for the child, in this
  order, each step only after the one before succeeded; when all succeed it returns the
  pair of \<open>gittufRefsTips\<close> and \<open>isPush\<close>, and a failure of the child's exit is the error
  of \<open>Wait\<close>.
\<close>

theorem shutdown_after_translation:
  assumes "translate env input out = Inr s"
  shows "handleCurl env input out =
     (if fails env (trace s) CloseStdin then Inl (Failed CloseStdin, trace s)
      else if fails env (trace s @ [CloseStdin]) CloseStdout
        then Inl (Failed CloseStdout, trace s @ [CloseStdin])
      else if fails env (trace s @ [CloseStdin, CloseStdout]) Wait
        then Inl (Failed Wait, trace s @ [CloseStdin, CloseStdout])
      else Inr (gittufRefsTips s, isPush s, trace s @ [CloseStdin, CloseStdout, Wait]))"
  using assms by (simp add: handleCurl_def shutdown_def perform_def)

theorem shutdown_after_translation_witness:
  "translate quietEnv lsRefsSession lsRefsAnswer = Inr lsRefsDone
   \<and> handleCurl quietEnv lsRefsSession lsRefsAnswer
       = Inr (gittufRefsTips lsRefsDone, isPush lsRefsDone,
              trace lsRefsDone @ [CloseStdin, CloseStdout, Wait])
   \<and> translate waitEnv lsRefsSession lsRefsAnswer = Inr lsRefsDone
   \<and> handleCurl waitEnv lsRefsSession lsRefsAnswer
       = Inl (Failed Wait, trace lsRefsDone @ [CloseStdin, CloseStdout])"
proof -
  have t1: "translate quietEnv lsRefsSession lsRefsAnswer = Inr lsRefsDone"
    by code_simp
  have t2: "translate waitEnv lsRefsSession lsRefsAnswer = Inr lsRefsDone"
    by code_simp
  from shutdown_after_translation[OF t1]
  have a: "handleCurl quietEnv lsRefsSession lsRefsAnswer
       = Inr (gittufRefsTips lsRefsDone, isPush lsRefsDone,
              trace lsRefsDone @ [CloseStdin, CloseStdout, Wait])"
    by (simp add: quietEnv_def)
  from shutdown_after_translation[OF t2]
  have b: "handleCurl waitEnv lsRefsSession lsRefsAnswer
       = Inl (Failed Wait, trace lsRefsDone @ [CloseStdin, CloseStdout])"
    by (simp add: waitEnv_def quietEnv_def)
  from t1 a t2 b show ?thesis by blast
qed

end
